theory Spec2Isabelle
  imports Complex_Main "HOL-Library.Word" "HOL-Library.Log_Nat" "HOL-Library.Monad_Syntax"
begin

unbundle bit_operations_syntax

section \<open>Constants and basic types of main.c\<close>

type_synonym u32 = "32 word"

definition TILESIZE :: int where "TILESIZE = 48"
definition DISPLAY_PW :: int where "DISPLAY_PW = 960"
definition DISPLAY_PH :: int where "DISPLAY_PH = 540"
definition DISPLAY_TW :: int where "DISPLAY_TW = DISPLAY_PW div TILESIZE"
definition DISPLAY_TH :: int where "DISPLAY_TH = DISPLAY_PH div TILESIZE"
definition MAPLENGTH :: nat where "MAPLENGTH = 2000"
definition MAPWIDTH :: int where "MAPWIDTH = 2000"
definition MAPHEIGHT :: int where "MAPHEIGHT = 2000"
definition SCROLL_TW :: int where "SCROLL_TW = DISPLAY_TW - 5"
definition SCROLL_TH :: int where "SCROLL_TH = DISPLAY_TH - 5"
definition SCROLL_PW :: int where "SCROLL_PW = SCROLL_TW * TILESIZE"
definition SCROLL_PH :: int where "SCROLL_PH = SCROLL_TH * TILESIZE"

text \<open>C's \<^verbatim>\<open>/\<close> on \<^verbatim>\<open>int\<close> truncates towards zero.\<close>

definition cdiv :: "int \<Rightarrow> int \<Rightarrow> int" where
  "cdiv a b = sgn a * sgn b * (\<bar>a\<bar> div \<bar>b\<bar>)"

text \<open>
  The value of an \<^verbatim>\<open>int\<close> expression where the source computes sizes and offsets: a
  result outside the 32-bit range is signed overflow, undefined behaviour in C, and fails.
\<close>

definition c_int :: "int \<Rightarrow> int option" where
  "c_int v = (if - (2 ^ 31) \<le> v \<and> v < 2 ^ 31 then Some v else None)"

text \<open>
  A \<^verbatim>\<open>for (int i = lo; i < hi; ++i)\<close> loop whose body may fail (an access outside a
  block, an invalid \<^verbatim>\<open>free\<close>): the first failure ends the run with \<open>None\<close>.
\<close>

function for_loop :: "int \<Rightarrow> int \<Rightarrow> (int \<Rightarrow> 's \<Rightarrow> 's option) \<Rightarrow> 's \<Rightarrow> 's option" where
  "for_loop i n body s =
     (if i < n then (case body i s of None \<Rightarrow> None | Some s' \<Rightarrow> for_loop (i + 1) n body s')
      else Some s)"
  by pat_completeness auto
termination
  by (relation "measure (\<lambda>(i, n, body, s). nat (n - i))") auto

declare for_loop.simps [simp del]

subsection \<open>Single-precision arithmetic\<close>

text \<open>
  The C type \<^verbatim>\<open>float\<close> is IEEE-754 binary32. A finite float is a rational number, so
  float values are modelled as \<open>rat\<close>, and every float operation is the exact operation
  followed by \<open>f32\<close>, rounding to the nearest number with 24 significant bits, ties to
  even, with the exponent bounded below by -126 (subnormal numbers). Overflow to infinity
  is not modelled: all magnitudes below stay far under \<open>2 ^ 128\<close>. A float expression is
  taken to be evaluated operation by operation in binary32.
\<close>

definition flog2 :: "rat \<Rightarrow> int" where
  "flog2 x = (if 1 \<le> x then bitlen \<lfloor>x\<rfloor> - 1 else - bitlen (\<lceil>1 / x\<rceil> - 1))"

definition rne :: "rat \<Rightarrow> int" where
  "rne m = (let n = \<lfloor>m\<rfloor>; d = m - of_int n in
     if d < 1 / 2 then n else if 1 / 2 < d then n + 1 else if even n then n else n + 1)"

definition f32 :: "rat \<Rightarrow> rat" where
  "f32 x = (if x = 0 then 0 else
     let e = max (flog2 \<bar>x\<bar>) (- 126); q = 2 powi (e - 23)
     in sgn x * of_int (rne (\<bar>x\<bar> / q)) * q)"

definition fadd :: "rat \<Rightarrow> rat \<Rightarrow> rat" where
  "fadd a b = f32 (a + b)"

definition fsub :: "rat \<Rightarrow> rat \<Rightarrow> rat" where
  "fsub a b = f32 (a - b)"

definition fmul :: "rat \<Rightarrow> rat \<Rightarrow> rat" where
  "fmul a b = f32 (a * b)"

definition fdiv :: "rat \<Rightarrow> rat \<Rightarrow> rat" where
  "fdiv a b = f32 (a / b)"

text \<open>Conversions: \<^verbatim>\<open>(float)i\<close> for an integer, and \<^verbatim>\<open>(int)f\<close>, which truncates towards zero.\<close>

definition i2f :: "int \<Rightarrow> rat" where
  "i2f i = f32 (of_int i)"

definition f2i :: "rat \<Rightarrow> int" where
  "f2i x = (if 0 \<le> x then \<lfloor>x\<rfloor> else \<lceil>x\<rceil>)"

text \<open>
  The C type \<^verbatim>\<open>double\<close> is IEEE-754 binary64: 53 significant bits, the exponent bounded
  below by -1022. A \<^verbatim>\<open>float\<close> operand of a \<^verbatim>\<open>double\<close> operation is converted without
  change of value; a \<^verbatim>\<open>double\<close> stored in a \<^verbatim>\<open>float\<close> is rounded by \<open>f32\<close>.
\<close>

definition f64 :: "rat \<Rightarrow> rat" where
  "f64 x = (if x = 0 then 0 else
     let e = max (flog2 \<bar>x\<bar>) (- 1022); q = 2 powi (e - 52)
     in sgn x * of_int (rne (\<bar>x\<bar> / q)) * q)"

definition dadd :: "rat \<Rightarrow> rat \<Rightarrow> rat" where
  "dadd a b = f64 (a + b)"

definition dmul :: "rat \<Rightarrow> rat \<Rightarrow> rat" where
  "dmul a b = f64 (a * b)"

text \<open>The macro \<^verbatim>\<open>M_PI\<close> of \<^verbatim>\<open>math.h\<close>, the \<^verbatim>\<open>double\<close> literal \<^verbatim>\<open>3.14159265358979323846\<close>.\<close>

definition M_PI :: rat where
  "M_PI = f64 (314159265358979323846 / 100000000000000000000)"

text \<open>
  A \<^verbatim>\<open>for (float a = lo; a < hi; a += step)\<close> loop whose body may fail. The loop need
  not end (\<^verbatim>\<open>a + step\<close> may round to \<^verbatim>\<open>a\<close>), so it is a partial function: \<open>None\<close> is
  also a run that never leaves the loop.
\<close>

partial_function (option) float_loop :: "rat \<Rightarrow> rat \<Rightarrow> rat \<Rightarrow> (rat \<Rightarrow> 's \<Rightarrow> 's option) \<Rightarrow> 's \<Rightarrow> 's option" where
  "float_loop a hi step body s =
     (if a < hi then Option.bind (body a s) (float_loop (fadd a step) hi step body) else Some s)"

subsection \<open>Color blending\<close>

text \<open>
  \<^verbatim>\<open>applyColor(src, dest)\<close>: the model returns the value stored to \<^verbatim>\<open>*dest\<close>.
  \<open>chan k c\<close> is \<^verbatim>\<open>c >> k & 0xFF\<close>.
\<close>

definition chan :: "nat \<Rightarrow> u32 \<Rightarrow> u32" where
  "chan k c = drop_bit k c AND 0xFF"

definition applyColor :: "u32 \<Rightarrow> u32 \<Rightarrow> u32" where
  "applyColor src dest =
    (let a = fdiv (i2f (uint (src AND 0xFF))) 255;
         r = f2i (fadd (fmul (fsub 1 a) (i2f (uint (chan 24 dest)))) (fmul a (i2f (uint (chan 24 src)))));
         g = f2i (fadd (fmul (fsub 1 a) (i2f (uint (chan 16 dest)))) (fmul a (i2f (uint (chan 16 src)))));
         b = f2i (fadd (fmul (fsub 1 a) (i2f (uint (chan 8 dest)))) (fmul a (i2f (uint (chan 8 src)))))
     in push_bit 24 (word_of_int r) OR push_bit 16 (word_of_int g) OR push_bit 8 (word_of_int b)
          OR (src AND 0xFF))"

text \<open>
  The word that packs three channel values above an alpha byte, as the last line of
  \<^verbatim>\<open>applyColor\<close> builds it.
\<close>

definition pack :: "int \<Rightarrow> int \<Rightarrow> int \<Rightarrow> u32 \<Rightarrow> u32" where
  "pack r g b a = push_bit 24 (word_of_int r) OR push_bit 16 (word_of_int g)
     OR push_bit 8 (word_of_int b) OR (a AND 0xFF)"

subsection \<open>Memory\<close>

text \<open>
  Pixel buffers live in heap blocks obtained from \<^verbatim>\<open>calloc\<close>. A pointer is the number
  of its block (0 is \<^verbatim>\<open>NULL\<close>); \<^verbatim>\<open>p + i\<close> is block \<open>p\<close> at index \<open>i\<close>. A read or a
  write outside the block, and \<^verbatim>\<open>free\<close> of a block that is not allocated, are undefined
  behaviour in C and fail here. Allocation itself never fails.
\<close>

record memory =
  blocks :: "nat \<Rightarrow> u32 list option"
  brk :: nat

definition calloc :: "nat \<Rightarrow> memory \<Rightarrow> nat \<times> memory" where
  "calloc n m = (brk m, m\<lparr>blocks := (blocks m)(brk m \<mapsto> replicate n 0), brk := Suc (brk m)\<rparr>)"

definition free :: "nat \<Rightarrow> memory \<Rightarrow> memory option" where
  "free p m = (if p = 0 then Some m
     else if blocks m p = None then None
     else Some (m\<lparr>blocks := (blocks m)(p := None)\<rparr>))"

definition load :: "memory \<Rightarrow> nat \<Rightarrow> int \<Rightarrow> u32 option" where
  "load m p i = (case blocks m p of None \<Rightarrow> None
     | Some xs \<Rightarrow> if 0 \<le> i \<and> i < int (length xs) then Some (xs ! nat i) else None)"

definition store :: "memory \<Rightarrow> nat \<Rightarrow> int \<Rightarrow> u32 \<Rightarrow> memory option" where
  "store m p i v = (case blocks m p of None \<Rightarrow> None
     | Some xs \<Rightarrow> if 0 \<le> i \<and> i < int (length xs)
         then Some (m\<lparr>blocks := (blocks m)(p \<mapsto> xs[nat i := v])\<rparr>) else None)"

text \<open>\<^verbatim>\<open>memcpy\<close> of \<open>n\<close> pixels; the two blocks must not be the same.\<close>

definition memcpy :: "nat \<Rightarrow> nat \<Rightarrow> nat \<Rightarrow> memory \<Rightarrow> memory option" where
  "memcpy dst src n m = (case (blocks m dst, blocks m src) of
       (Some ds, Some ss) \<Rightarrow>
         if dst \<noteq> src \<and> n \<le> length ds \<and> n \<le> length ss
         then Some (m\<lparr>blocks := (blocks m)(dst \<mapsto> take n ss @ drop n ds)\<rparr>) else None
     | _ \<Rightarrow> None)"

subsection \<open>Structures\<close>

record Bitmap =
  data :: nat
  width :: int
  height :: int

subsection \<open>Bitmap transforms\<close>

text \<open>
  \<^verbatim>\<open>scaleBitmap\<close> and \<^verbatim>\<open>rotateBitmap\<close> read the pixels of their argument and return a
  new bitmap in a block from \<^verbatim>\<open>calloc\<close>; the model returns it with the new memory. The
  three definitions of \<^verbatim>\<open>scaleBitmap\<close> are the body of the inner loop, the body of the
  outer loop and the function.
\<close>

definition scaleBitmap_pixel :: "Bitmap \<Rightarrow> Bitmap \<Rightarrow> rat \<Rightarrow> int \<Rightarrow> int \<Rightarrow> int \<Rightarrow> memory \<Rightarrow> memory option" where
  "scaleBitmap_pixel bitmap scaledBitmap wRatio yStride y x m =
     (case load m (data bitmap) (yStride + f2i (fmul (i2f x) wRatio)) of
        None \<Rightarrow> None
      | Some v \<Rightarrow> store m (data scaledBitmap) ((y * width scaledBitmap) + x) v)"

definition scaleBitmap_row :: "Bitmap \<Rightarrow> Bitmap \<Rightarrow> rat \<Rightarrow> rat \<Rightarrow> int \<Rightarrow> memory \<Rightarrow> memory option" where
  "scaleBitmap_row bitmap scaledBitmap wRatio hRatio y m =
     (let yStride = f2i (fmul (i2f y) hRatio) * width bitmap
      in for_loop 0 (width scaledBitmap) (scaleBitmap_pixel bitmap scaledBitmap wRatio yStride y) m)"

definition scaleBitmap :: "Bitmap \<Rightarrow> rat \<Rightarrow> memory \<Rightarrow> (Bitmap \<times> memory) option" where
  "scaleBitmap bitmap scale m =
     (let w = width bitmap; h = height bitmap;
          wScaled = fmul (i2f w) scale; hScaled = fmul (i2f h) scale;
          wRatio = fdiv (i2f w) wScaled; hRatio = fdiv (i2f h) hScaled;
          pm = calloc (nat (f2i (fmul wScaled hScaled))) m;
          scaledBitmap = \<lparr>data = fst pm, width = f2i wScaled, height = f2i hScaled\<rparr>
      in map_option (Pair scaledBitmap)
           (for_loop 0 (height scaledBitmap)
              (scaleBitmap_row bitmap scaledBitmap wRatio hRatio) (snd pm)))"

text \<open>
  C's \<^verbatim>\<open>round\<close> (halves away from zero), and the interpolation
  \<^verbatim>\<open>(1 - d) * p + d * q\<close> that \<^verbatim>\<open>rotateBitmap\<close> writes out twelve times.
\<close>

definition cround :: "rat \<Rightarrow> int" where
  "cround v = (if 0 \<le> v then \<lfloor>v + 1 / 2\<rfloor> else \<lceil>v - 1 / 2\<rceil>)"

definition lerp :: "rat \<Rightarrow> rat \<Rightarrow> rat \<Rightarrow> rat" where
  "lerp d p q = fadd (fmul (fsub 1 d) p) (fmul d q)"

text \<open>
  \<^verbatim>\<open>rotateBitmap\<close>. The float values of \<^verbatim>\<open>sin(angle)\<close> and \<^verbatim>\<open>cos(angle)\<close> come from the C
  library and are parameters in place of \<^verbatim>\<open>angle\<close>; for the angle 0 they are 0 and 1.
  The first definition is the body of the inner loop; \<open>dest\<close> is the block of the
  rotated bitmap. In \<^verbatim>\<open>rx\<close> the source subtracts \<^verbatim>\<open>cx\<close> from \<^verbatim>\<open>y\<close>. The products
  \<^verbatim>\<open>w * h\<close> and \<^verbatim>\<open>(int)floor(ry) * w\<close>, \<^verbatim>\<open>(int)ceil(ry) * w\<close> are \<^verbatim>\<open>int\<close> arithmetic.
\<close>

definition rotateBitmap_pixel :: "Bitmap \<Rightarrow> nat \<Rightarrow> rat \<Rightarrow> rat \<Rightarrow> int \<Rightarrow> int \<Rightarrow> memory \<Rightarrow> memory option" where
  "rotateBitmap_pixel bitmap dest angleSin angleCos y x m =
     (let w = width bitmap; h = height bitmap;
          cx = i2f (cdiv w 2); cy = i2f (cdiv h 2);
          rx = fadd (fsub (fmul (fsub (i2f x) cx) angleCos) (fmul (fsub (i2f y) cx) angleSin)) cx;
          ry = fadd (fadd (fmul (fsub (i2f x) cx) angleSin) (fmul (fsub (i2f y) cy) angleCos)) cy
      in if rx < 0 \<or> ry < 0 \<or> rx \<ge> i2f (w - 1) \<or> ry \<ge> i2f (h - 1) then Some m
         else do {
           i \<leftarrow> c_int (\<lfloor>ry\<rfloor> * w);
           tl \<leftarrow> load m (data bitmap) (i + \<lfloor>rx\<rfloor>);
           i \<leftarrow> c_int (\<lfloor>ry\<rfloor> * w);
           tr \<leftarrow> load m (data bitmap) (i + \<lceil>rx\<rceil>);
           i \<leftarrow> c_int (\<lceil>ry\<rceil> * w);
           bl \<leftarrow> load m (data bitmap) (i + \<lfloor>rx\<rfloor>);
           i \<leftarrow> c_int (\<lceil>ry\<rceil> * w);
           br \<leftarrow> load m (data bitmap) (i + \<lceil>rx\<rceil>);
           let dx = fsub rx (of_int \<lfloor>rx\<rfloor>);
           let dy = fsub ry (of_int \<lfloor>ry\<rfloor>);
           let topA = lerp dx (i2f (uint (chan 24 tl))) (i2f (uint (chan 24 tr)));
           let topR = lerp dx (i2f (uint (chan 16 tl))) (i2f (uint (chan 16 tr)));
           let topG = lerp dx (i2f (uint (chan 8 tl))) (i2f (uint (chan 8 tr)));
           let topB = lerp dx (i2f (uint (chan 0 tl))) (i2f (uint (chan 0 tr)));
           let botA = lerp dx (i2f (uint (chan 24 bl))) (i2f (uint (chan 24 br)));
           let botR = lerp dx (i2f (uint (chan 16 bl))) (i2f (uint (chan 16 br)));
           let botG = lerp dx (i2f (uint (chan 8 bl))) (i2f (uint (chan 8 br)));
           let botB = lerp dx (i2f (uint (chan 0 bl))) (i2f (uint (chan 0 br)));
           let a = lerp dy topA botA;
           let r = lerp dy topR botR;
           let g = lerp dy topG botG;
           let b = lerp dy topB botB;
           let color = 0 OR push_bit 24 (word_of_int (cround r));
           let color = color OR push_bit 16 (word_of_int (cround g));
           let color = color OR push_bit 8 (word_of_int (cround b));
           let color = color OR push_bit 0 (word_of_int (cround a));
           d \<leftarrow> load m dest ((y * w) + x);
           store m dest ((y * w) + x) (applyColor color d)
         })"

definition rotateBitmap :: "Bitmap \<Rightarrow> rat \<Rightarrow> rat \<Rightarrow> memory \<Rightarrow> (Bitmap \<times> memory) option" where
  "rotateBitmap bitmap angleSin angleCos m =
     (let w = width bitmap; h = height bitmap
      in case c_int (w * h) of
           None \<Rightarrow> None
         | Some n \<Rightarrow>
             let pm = calloc (nat n) m;
                 rotatedBitmap = \<lparr>data = fst pm, width = w, height = h\<rparr>
             in map_option (Pair rotatedBitmap)
                  (for_loop 0 h (\<lambda>y. for_loop 0 w (rotateBitmap_pixel bitmap (fst pm) angleSin angleCos y))
                     (snd pm)))"

subsection \<open>Tile world\<close>

text \<open>
  \<^verbatim>\<open>Tile\<close> has the fields \<^verbatim>\<open>x\<close>, \<^verbatim>\<open>y\<close> and \<^verbatim>\<open>flatCoord\<close>; the first two are called
  \<open>tile_x\<close> and \<open>tile_y\<close> here.
\<close>

record Tile =
  tile_x :: int
  tile_y :: int
  flatCoord :: int

definition tileCompare :: "Tile \<Rightarrow> Tile \<Rightarrow> int" where
  "tileCompare a b = flatCoord a - flatCoord b"

text \<open>
  The C library's \<^verbatim>\<open>bsearch\<close>: binary search of \<open>nmemb\<close> elements with the comparison
  function \<open>compar\<close>; the result is the index of a matching element.
\<close>

function bsearch_loop :: "('a \<Rightarrow> 'a \<Rightarrow> int) \<Rightarrow> 'a \<Rightarrow> 'a list \<Rightarrow> nat \<Rightarrow> nat \<Rightarrow> nat option" where
  "bsearch_loop compar key base l u =
     (if l < u then
        let idx = (l + u) div 2; c = compar key (base ! idx)
        in if c < 0 then bsearch_loop compar key base l idx
           else if 0 < c then bsearch_loop compar key base (idx + 1) u
           else Some idx
      else None)"
  by pat_completeness auto
termination
  by (relation "measure (\<lambda>(compar, key, base, l, u). u - l)") auto

declare bsearch_loop.simps [simp del]

definition bsearch :: "'a \<Rightarrow> 'a list \<Rightarrow> nat \<Rightarrow> ('a \<Rightarrow> 'a \<Rightarrow> int) \<Rightarrow> nat option" where
  "bsearch key base nmemb compar = bsearch_loop compar key base 0 nmemb"

text \<open>
  The C library's \<^verbatim>\<open>qsort\<close>: the array sorted with respect to \<open>compar\<close>. C leaves the
  order of elements that compare equal open; the model sorts by insertion.
\<close>

fun qsort_insert :: "('a \<Rightarrow> 'a \<Rightarrow> int) \<Rightarrow> 'a \<Rightarrow> 'a list \<Rightarrow> 'a list" where
  "qsort_insert compar a [] = [a]"
| "qsort_insert compar a (b # bs) =
     (if compar a b \<le> 0 then a # b # bs else b # qsort_insert compar a bs)"

definition qsort :: "'a list \<Rightarrow> ('a \<Rightarrow> 'a \<Rightarrow> int) \<Rightarrow> 'a list" where
  "qsort base compar = foldr (qsort_insert compar) base []"

text \<open>
  \<^verbatim>\<open>borderCollide\<close> reads the global \<^verbatim>\<open>tileArray\<close>, here its last argument.
  The arithmetic is on unbounded integers: \<^verbatim>\<open>int\<close> overflow of the key is not modelled.
\<close>

definition borderCollide :: "int \<Rightarrow> int \<Rightarrow> Tile list \<Rightarrow> int" where
  "borderCollide x y tileArray =
     (let tile = \<lparr>tile_x = x, tile_y = y, flatCoord = (y * MAPWIDTH) + x\<rparr>
      in if bsearch tile tileArray MAPLENGTH tileCompare \<noteq> None then 0 else 1)"

text \<open>
  \<^verbatim>\<open>initMap\<close>. The values returned by the C library's \<^verbatim>\<open>rand()\<close> after the seed is set
  are a parameter: \<open>rand k\<close> is the value of the \<open>k\<close>-th call. The state of the
  \<^verbatim>\<open>while\<close> loop is the filled part of \<^verbatim>\<open>tileArray\<close> (the pointer \<^verbatim>\<open>tile\<close> is its
  length), \<^verbatim>\<open>x\<close>, \<^verbatim>\<open>y\<close>, \<^verbatim>\<open>r2\<close>, \<^verbatim>\<open>i\<close> and the number of calls of \<^verbatim>\<open>rand()\<close> so far.
  The loop need not end, so it is a partial function: \<open>None\<close> is a run that never
  leaves the loop.
\<close>

type_synonym walk = "Tile list \<times> int \<times> int \<times> int \<times> nat \<times> nat"

text \<open>The search of the filled part for \<^verbatim>\<open>(x, y)\<close>, and the push of a new tile.\<close>

definition push_tile :: "Tile list \<Rightarrow> int \<Rightarrow> int \<Rightarrow> Tile list" where
  "push_tile tiles x y =
     (let repeat = list_ex (\<lambda>p. tile_x p = x \<and> tile_y p = y) tiles
      in if \<not> repeat
         then tiles @ [\<lparr>tile_x = x, tile_y = y, flatCoord = (y * MAPWIDTH) + x\<rparr>]
         else tiles)"

text \<open>The move chosen by \<^verbatim>\<open>r1\<close> and the bias \<^verbatim>\<open>r2\<close>.\<close>

definition walk_move :: "int \<Rightarrow> int \<Rightarrow> int \<times> int \<Rightarrow> int \<times> int" where
  "walk_move r1 r2 = (\<lambda>(x, y).
     if r1 = 0 \<or> (r1 = 4 \<and> r2 = 0) then (x + 1, y)
     else if r1 = 1 \<or> (r1 = 4 \<and> r2 = 1) then (x - 1, y)
     else if r1 = 2 \<or> (r1 = 4 \<and> r2 = 2) then (x, y + 1)
     else if r1 = 3 \<or> (r1 = 4 \<and> r2 = 3) then (x, y - 1)
     else (x, y))"

text \<open>The four boundary tests, in the order of the source; the last two set the maximum.\<close>

definition walk_clamp :: "int \<times> int \<Rightarrow> int \<times> int" where
  "walk_clamp = (\<lambda>(x, y).
     let mapMinX = - (MAPWIDTH div 2); mapMaxX = MAPWIDTH div 2;
         mapMinY = - (MAPHEIGHT div 2); mapMaxY = MAPHEIGHT div 2;
         x = (if x > mapMaxX then mapMaxX else x);
         y = (if y > mapMaxY then mapMaxY else y);
         x = (if x < mapMinX then mapMaxX else x);
         y = (if y < mapMinY then mapMaxY else y)
     in (x, y))"

fun initMap_body :: "(nat \<Rightarrow> nat) \<Rightarrow> walk \<Rightarrow> walk" where
  "initMap_body rand (tiles, x, y, r2, i, k) =
     (let tiles = push_tile tiles x y;
         r2k = (if i mod 20 = 0 then (int (rand k) mod 4, k + 1) else (r2, k));
         r2 = fst r2k; k = snd r2k;
         i = i + 1;
         r1 = int (rand k) mod 5;
         k = k + 1;
         xy = walk_clamp (walk_move r1 r2 (x, y))
     in (tiles, fst xy, snd xy, r2, i, k))"

partial_function (option) initMap_loop :: "(nat \<Rightarrow> nat) \<Rightarrow> walk \<Rightarrow> walk option" where
  "initMap_loop rand s =
     (if length (fst s) < MAPLENGTH then initMap_loop rand (initMap_body rand s) else Some s)"

definition initMap :: "(nat \<Rightarrow> nat) \<Rightarrow> Tile list option" where
  "initMap rand = (case initMap_loop rand ([], 0, 0, 0, 0, 0) of
       None \<Rightarrow> None
     | Some s \<Rightarrow> Some (qsort (fst s) tileCompare))"

subsection \<open>Ripple pool\<close>

record Ripple =
  bitmap :: Bitmap
  radius :: rat
  alpha :: rat
  tileX :: int
  tileY :: int
  active :: int

text \<open>
  The globals \<^verbatim>\<open>rippleArray\<close> and \<^verbatim>\<open>rippleIndex\<close>, and the memory that holds the
  ripples' bitmaps (and the display buffer).
\<close>

record ripples =
  rippleArray :: "Ripple list"
  rippleIndex :: int
  heap :: memory

definition initRipple :: "int \<Rightarrow> int \<Rightarrow> ripples \<Rightarrow> ripples" where
  "initRipple x y st =
     (let idx = (if rippleIndex st > 4 then 0 else rippleIndex st);
          ripple = rippleArray st ! nat idx;
          bm = (bitmap ripple)\<lparr>width := 100, height := 100\<rparr>;
          pm = calloc (nat (width bm * height bm)) (heap st);
          bm = bm\<lparr>data := fst pm\<rparr>;
          ripple = ripple\<lparr>bitmap := bm, radius := 20, alpha := 1,
                     tileX := x, tileY := y, active := 1\<rparr>
      in st\<lparr>rippleArray := (rippleArray st)[nat idx := ripple],
            rippleIndex := idx + 1, heap := snd pm\<rparr>)"

text \<open>The pool at program start: \<^verbatim>\<open>Ripple rippleArray[5] = {}\<close>, \<^verbatim>\<open>rippleIndex = 0\<close>.\<close>

definition no_ripple :: Ripple where
  "no_ripple = \<lparr>bitmap = \<lparr>data = 0, width = 0, height = 0\<rparr>, radius = 0, alpha = 0,
     tileX = 0, tileY = 0, active = 0\<rparr>"

definition empty_pool :: "memory \<Rightarrow> ripples" where
  "empty_pool m = \<lparr>rippleArray = replicate 5 no_ripple, rippleIndex = 0, heap = m\<rparr>"

subsection \<open>Scrolling world renderer\<close>

record Camera =
  tileX :: int
  tileY :: int
  pixelX :: rat
  pixelY :: rat
  destTileX :: int
  destTileY :: int
  accelX :: rat
  accelY :: rat
  velocityX :: rat
  velocityY :: rat

text \<open>Of \<^verbatim>\<open>Display\<close>, \<^verbatim>\<open>drawBackground\<close> uses the pixel buffer only.\<close>

record Display =
  buffer :: nat

text \<open>
  The globals \<^verbatim>\<open>cam\<close>, \<^verbatim>\<open>bgBufferOld\<close>, \<^verbatim>\<open>bgBufferNew\<close> and \<^verbatim>\<open>display\<close>, and the
  memory that holds the three pixel buffers.
\<close>

record scene =
  cam :: Camera
  bgBufferOld :: Bitmap
  bgBufferNew :: Bitmap
  display :: Display
  mem :: memory

text \<open>
  The body of the inner loop of \<^verbatim>\<open>drawBackground\<close>: the choice of the source buffer and
  of \<^verbatim>\<open>newX\<close>, \<^verbatim>\<open>newY\<close>, then the copy of one pixel.
\<close>

definition drawBackground_pixel :: "scene \<Rightarrow> int \<Rightarrow> int \<Rightarrow> int \<Rightarrow> int \<Rightarrow> memory \<Rightarrow> memory option" where
  "drawBackground_pixel st minX minY y x m =
     (let src_new = (if x < 0 then (data (bgBufferNew st), x + SCROLL_PW, y)
                     else if x \<ge> DISPLAY_PW then (data (bgBufferNew st), x - SCROLL_PW, y)
                     else if y < 0 then (data (bgBufferNew st), x, y + SCROLL_PH)
                     else if y \<ge> DISPLAY_PH then (data (bgBufferNew st), x, y - SCROLL_PH)
                     else (data (bgBufferOld st), x, y));
          src = fst src_new; newX = fst (snd src_new); newY = snd (snd src_new)
      in case load m src ((newY * DISPLAY_PW) + newX) of
           None \<Rightarrow> None
         | Some v \<Rightarrow> store m (buffer (display st)) (((y - minY) * DISPLAY_PW) + (x - minX)) v)"

definition drawBackground :: "scene \<Rightarrow> scene option" where
  "drawBackground st =
     (let minX = f2i (pixelX (cam st)); maxX = minX + DISPLAY_PW;
          minY = f2i (pixelY (cam st)); maxY = minY + DISPLAY_PH
      in if tileX (cam st) \<noteq> destTileX (cam st) \<or> tileY (cam st) \<noteq> destTileY (cam st)
         then map_option (\<lambda>m. st\<lparr>mem := m\<rparr>)
                (for_loop minY maxY
                   (\<lambda>y. for_loop minX maxX (drawBackground_pixel st minX minY y)) (mem st))
         else map_option (\<lambda>m. st\<lparr>mem := m\<rparr>)
                (memcpy (buffer (display st)) (data (bgBufferNew st))
                   (nat (DISPLAY_PW * DISPLAY_PH)) (mem st)))"


subsection \<open>Ripple animation\<close>

text \<open>
  \<^verbatim>\<open>animateRipple\<close> reads the globals \<^verbatim>\<open>cam\<close> and \<^verbatim>\<open>display\<close>; they are the
  arguments \<open>camera\<close> and \<open>disp\<close> here, \<^verbatim>\<open>display.width\<close> being the argument \<open>display_width\<close> (\<^verbatim>\<open>initDisplay\<close> sets it to
  \<^verbatim>\<open>DISPLAY_PW\<close>). The display buffer is a block of the same memory as the ripples'
  bitmaps. The C library's \<^verbatim>\<open>sin\<close> and \<^verbatim>\<open>cos\<close> on \<^verbatim>\<open>double\<close> are the parameters \<open>sn\<close> and
  \<open>cs\<close>.
\<close>

definition fillBitmap :: "Bitmap \<Rightarrow> int \<Rightarrow> memory \<Rightarrow> memory option" where
  "fillBitmap bm color m =
     for_loop 0 (height bm) (\<lambda>y. for_loop 0 (width bm)
       (\<lambda>x m. do {
          row \<leftarrow> c_int (y * width bm);
          store m (data bm) (row + x) (word_of_int color)
        })) m"

text \<open>
  \<^verbatim>\<open>screenX\<close> (and \<^verbatim>\<open>screenY\<close>): the tile offset from the camera in pixels, then
  \<^verbatim>\<open>screenX -= cx\<close>, \<^verbatim>\<open>screenX += TILESIZE / 2\<close> and \<^verbatim>\<open>screenX -= cam.pixelX\<close>; the two
  subtractions are \<^verbatim>\<open>float\<close> operations whose result is converted back to \<^verbatim>\<open>int\<close>.
\<close>

definition animateRipple_screen :: "int \<Rightarrow> int \<Rightarrow> int \<Rightarrow> rat \<Rightarrow> rat \<Rightarrow> int option" where
  "animateRipple_screen tile camTile half c camPixel = do {
     d \<leftarrow> c_int (tile - camTile);
     d \<leftarrow> c_int (d + half);
     screen \<leftarrow> c_int (d * TILESIZE);
     screen \<leftarrow> c_int (f2i (fsub (i2f screen) c));
     screen \<leftarrow> c_int (screen + cdiv TILESIZE 2);
     c_int (f2i (fsub (i2f screen) camPixel))
   }"

text \<open>
  The store of one ring pixel at \<^verbatim>\<open>((int)y * width) + (int)x\<close>, after the \<^verbatim>\<open>assert\<close> that
  the pixel is below the end of the bitmap.
\<close>

definition animateRipple_plot :: "Bitmap \<Rightarrow> rat \<Rightarrow> rat \<Rightarrow> u32 \<Rightarrow> memory \<Rightarrow> memory option" where
  "animateRipple_plot bm x y color m = do {
     row \<leftarrow> c_int (f2i y * width bm);
     i \<leftarrow> c_int (row + f2i x);
     size \<leftarrow> c_int (width bm * height bm);
     if i < size then store m (data bm) i color else None
   }"

text \<open>
  The body of the loop over \<^verbatim>\<open>angle\<close>: two pixels, on the circles of radius
  \<^verbatim>\<open>radius + rippleLine\<close> and \<^verbatim>\<open>radius - rippleLine\<close>. The sum and the difference are
  \<^verbatim>\<open>float\<close> operations; the product with \<^verbatim>\<open>cos(angle)\<close> and the sum with \<^verbatim>\<open>cx\<close> are
  \<^verbatim>\<open>double\<close> operations, and the result is stored in a \<^verbatim>\<open>float\<close>.
\<close>

definition animateRipple_angle ::
  "(rat \<Rightarrow> rat) \<Rightarrow> (rat \<Rightarrow> rat) \<Rightarrow> Ripple \<Rightarrow> rat \<Rightarrow> rat \<Rightarrow> rat \<Rightarrow> u32 \<Rightarrow> rat \<Rightarrow> memory \<Rightarrow> memory option" where
  "animateRipple_angle sn cs ripple cx cy rippleLine color angle m = do {
     let x = f32 (dadd cx (dmul (fadd (radius ripple) rippleLine) (cs angle)));
     let y = f32 (dadd cy (dmul (fadd (radius ripple) rippleLine) (sn angle)));
     m \<leftarrow> animateRipple_plot (bitmap ripple) x y color m;
     let x = f32 (dadd cx (dmul (fsub (radius ripple) rippleLine) (cs angle)));
     let y = f32 (dadd cy (dmul (fsub (radius ripple) rippleLine) (sn angle)));
     animateRipple_plot (bitmap ripple) x y color m
   }"

text \<open>
  The body of the loop over \<^verbatim>\<open>rippleLine\<close>; its state is \<^verbatim>\<open>subAlpha\<close> and the memory.
  \<^verbatim>\<open>0.2f\<close> is \<open>f32 (1 / 5)\<close> and \<^verbatim>\<open>0.01f\<close> is \<open>f32 (1 / 100)\<close>.
\<close>

definition animateRipple_line ::
  "(rat \<Rightarrow> rat) \<Rightarrow> (rat \<Rightarrow> rat) \<Rightarrow> Ripple \<Rightarrow> rat \<Rightarrow> rat \<Rightarrow> rat \<Rightarrow> rat \<times> memory \<Rightarrow> (rat \<times> memory) option" where
  "animateRipple_line sn cs ripple cx cy rippleLine = (\<lambda>(subAlpha, m).
     let color = push_bit 8 0x6f6fbf;
         color = color OR word_of_int (f2i (fmul (fmul (alpha ripple) 255) subAlpha));
         subAlpha = fsub subAlpha (f32 (1 / 5))
     in map_option (Pair subAlpha)
          (float_loop 0 (dmul 2 M_PI) (f32 (1 / 100))
             (animateRipple_angle sn cs ripple cx cy rippleLine color) m))"

definition animateRipple_rings ::
  "(rat \<Rightarrow> rat) \<Rightarrow> (rat \<Rightarrow> rat) \<Rightarrow> Ripple \<Rightarrow> rat \<Rightarrow> rat \<Rightarrow> memory \<Rightarrow> memory option" where
  "animateRipple_rings sn cs ripple cx cy m =
     map_option snd (float_loop 0 4 1 (animateRipple_line sn cs ripple cx cy) (1, m))"

text \<open>
  The composition of the ripple's bitmap onto the display buffer, unclipped: the pixel
  \<open>(x, y)\<close> of the bitmap goes to the buffer at \<open>origin + y * display_width + x\<close>, where
  \<open>origin\<close> is \<^verbatim>\<open>(screenY * display.width) + screenX\<close>.
\<close>

definition animateRipple_pixel :: "Ripple \<Rightarrow> nat \<Rightarrow> int \<Rightarrow> int \<Rightarrow> int \<Rightarrow> int \<Rightarrow> memory \<Rightarrow> memory option" where
  "animateRipple_pixel ripple dest display_width origin y x m = do {
     d \<leftarrow> load m dest ((origin + (y * display_width)) + x);
     if d \<noteq> 0xeb9b34ff \<and> d \<noteq> 0x000000ff
     then do {
       src \<leftarrow> load m (data (bitmap ripple)) ((y * width (bitmap ripple)) + x);
       store m dest ((origin + (y * display_width)) + x) (applyColor src d)
     }
     else Some m
   }"

definition animateRipple_blit :: "Ripple \<Rightarrow> Display \<Rightarrow> int \<Rightarrow> int \<Rightarrow> int \<Rightarrow> memory \<Rightarrow> memory option" where
  "animateRipple_blit ripple disp display_width screenX screenY m = do {
     row \<leftarrow> c_int (screenY * display_width);
     origin \<leftarrow> c_int (row + screenX);
     for_loop 0 (height (bitmap ripple)) (\<lambda>y. for_loop 0 (width (bitmap ripple))
       (animateRipple_pixel ripple (buffer disp) display_width origin y)) m
   }"

text \<open>The end of a ripple: the test of the radius, \<^verbatim>\<open>active = 0\<close> and \<^verbatim>\<open>free\<close>.\<close>

definition animateRipple_end :: "int \<Rightarrow> Ripple \<Rightarrow> memory \<Rightarrow> ripples \<Rightarrow> ripples option" where
  "animateRipple_end i ripple m st =
     (if i2f (cdiv (width (bitmap ripple) - 5) 2) \<le> radius ripple
      then (case free (data (bitmap ripple)) m of
              None \<Rightarrow> None
            | Some m \<Rightarrow> Some (st\<lparr>rippleArray := (rippleArray st)[nat i := ripple\<lparr>active := 0\<rparr>],
                               heap := m\<rparr>))
      else Some (st\<lparr>rippleArray := (rippleArray st)[nat i := ripple], heap := m\<rparr>))"

text \<open>
  \<^verbatim>\<open>animateRipple\<close>, one slot, in the order of the source. \<^verbatim>\<open>0.03f\<close> is \<open>f32 (3 / 100)\<close>.
\<close>

definition animateRipple_body ::
  "(rat \<Rightarrow> rat) \<Rightarrow> (rat \<Rightarrow> rat) \<Rightarrow> Camera \<Rightarrow> Display \<Rightarrow> int \<Rightarrow> int \<Rightarrow> ripples \<Rightarrow> ripples option" where
  "animateRipple_body sn cs camera disp display_width i st =
     (let ripple = rippleArray st ! nat i in
      if active ripple = 0 then Some st
      else do {
        m \<leftarrow> fillBitmap (bitmap ripple) 0 (heap st);
        let cx = i2f (cdiv (width (bitmap ripple)) 2);
        let cy = i2f (cdiv (height (bitmap ripple)) 2);
        screenX \<leftarrow> animateRipple_screen (Ripple.tileX ripple) (tileX camera) (cdiv DISPLAY_TW 2) cx (pixelX camera);
        screenY \<leftarrow> animateRipple_screen (Ripple.tileY ripple) (tileY camera) (cdiv DISPLAY_TH 2) cy (pixelY camera);
        let ripple = ripple\<lparr>radius := fadd (radius ripple) 1\<rparr>;
        let ripple = ripple\<lparr>alpha := fsub (alpha ripple) (f32 (3 / 100))\<rparr>;
        m \<leftarrow> animateRipple_rings sn cs ripple cx cy m;
        m \<leftarrow> animateRipple_blit ripple disp display_width screenX screenY m;
        animateRipple_end i ripple m st
      })"

definition animateRipple ::
  "(rat \<Rightarrow> rat) \<Rightarrow> (rat \<Rightarrow> rat) \<Rightarrow> Camera \<Rightarrow> Display \<Rightarrow> int \<Rightarrow> ripples \<Rightarrow> ripples option" where
  "animateRipple sn cs camera disp display_width st =
     for_loop 0 5 (animateRipple_body sn cs camera disp display_width) st"


section \<open>Auxiliary definitions for the proofs\<close>

definition coords :: "Tile \<Rightarrow> int \<times> int" where
  "coords t = (tile_x t, tile_y t)"

definition walk_inv :: "walk \<Rightarrow> bool" where
  "walk_inv = (\<lambda>(tiles, x, y, r2, i, k).
     distinct (map coords tiles) \<and>
     (\<forall>t \<in> set tiles. flatCoord t = (tile_y t * MAPWIDTH) + tile_x t
        \<and> \<bar>tile_x t\<bar> \<le> 1000 \<and> \<bar>tile_y t\<bar> \<le> 1000) \<and>
     length tiles \<le> MAPLENGTH \<and> \<bar>x\<bar> \<le> 1000 \<and> \<bar>y\<bar> \<le> 1000 \<and>
     (if tiles = [] then x = 0 \<and> y = 0 else coords (hd tiles) = (0, 0)))"

definition walk_start :: walk where
  "walk_start = ([], 0, 0, 0, 0, 0)"

definition rand_ones :: "nat \<Rightarrow> nat" where
  "rand_ones = (\<lambda>k. 1)"

definition row_tile :: "int \<Rightarrow> Tile" where
  "row_tile x = \<lparr>tile_x = x, tile_y = 0, flatCoord = x\<rparr>"

definition west_run :: "nat \<Rightarrow> Tile list" where
  "west_run n = map (\<lambda>j. row_tile (- int j)) [0..<n]"

definition east_run :: "nat \<Rightarrow> Tile list" where
  "east_run m = map (\<lambda>j. row_tile (1000 - int j)) [0..<m]"

definition row_tiles :: "Tile list" where
  "row_tiles = qsort (west_run 1001 @ east_run 999) tileCompare"

definition scroll_pixel :: "u32 list \<Rightarrow> u32 list \<Rightarrow> int \<Rightarrow> nat \<Rightarrow> u32" where
  "scroll_pixel old new minX k =
     (let x = minX + int k mod 960; y = int k div 960
      in if x < 0 then new ! nat ((y * 960) + x + 720) else old ! nat ((y * 960) + x))"

definition scroll_inv :: "scene \<Rightarrow> u32 list \<Rightarrow> u32 list \<Rightarrow> int \<Rightarrow> nat \<Rightarrow> memory \<Rightarrow> bool" where
  "scroll_inv st old new minX t m \<longleftrightarrow>
     blocks m (data (bgBufferOld st)) = Some old \<and> blocks m (data (bgBufferNew st)) = Some new \<and>
     (\<exists>dc. blocks m (buffer (display st)) = Some dc \<and> length dc = 518400 \<and>
        (\<forall>k < t. dc ! k = scroll_pixel old new minX k))"

definition scene_memory :: memory where
  "scene_memory = \<lparr>blocks = [2 \<mapsto> replicate 518400 0x4f4f9fff, 3 \<mapsto> replicate 518400 0xeb9b34ff,
                        4 \<mapsto> replicate 518400 0],
                    brk = 5\<rparr>"

definition scroll_scene :: scene where
  "scroll_scene = \<lparr>cam = \<lparr>tileX = 0, tileY = 0, pixelX = - 360, pixelY = 0,
                           destTileX = - 15, destTileY = 0, accelX = - 2560, accelY = 0,
                           velocityX = - 1024, velocityY = 0\<rparr>,
                    bgBufferOld = \<lparr>data = 2, width = 960, height = 540\<rparr>,
                    bgBufferNew = \<lparr>data = 3, width = 960, height = 540\<rparr>,
                    display = \<lparr>buffer = 4\<rparr>, mem = scene_memory\<rparr>"

definition still_scene :: scene where
  "still_scene = \<lparr>cam = \<lparr>tileX = 0, tileY = 0, pixelX = 0, pixelY = 0,
                          destTileX = 0, destTileY = 0, accelX = 0, accelY = 0,
                          velocityX = 0, velocityY = 0\<rparr>,
                   bgBufferOld = \<lparr>data = 2, width = 960, height = 540\<rparr>,
                   bgBufferNew = \<lparr>data = 3, width = 960, height = 540\<rparr>,
                   display = \<lparr>buffer = 4\<rparr>, mem = scene_memory\<rparr>"

definition still_drawn :: scene where
  "still_drawn = still_scene\<lparr>mem := scene_memory\<lparr>blocks := (blocks scene_memory)(4 \<mapsto> replicate 518400 0xeb9b34ff)\<rparr>\<rparr>"

definition filled :: "(memory \<Rightarrow> bool) \<Rightarrow> nat \<Rightarrow> nat \<Rightarrow> (nat \<Rightarrow> u32) \<Rightarrow> nat \<Rightarrow> memory \<Rightarrow> bool" where
  "filled P dst N g t m \<longleftrightarrow>
     P m \<and> (\<exists>dc. blocks m dst = Some dc \<and> length dc = N
                \<and> (\<forall>k < t. dc ! k = g k) \<and> (\<forall>k. t \<le> k \<and> k < N \<longrightarrow> dc ! k = 0))"

definition small_bitmap :: Bitmap where
  "small_bitmap = \<lparr>data = 2, width = 2, height = 2\<rparr>"

definition small_memory :: memory where
  "small_memory = \<lparr>blocks = [2 \<mapsto> [0xFFFFFFFF, 0xFF000000, 0x00000000, 0x12345678]], brk = 3\<rparr>"

definition wide_bitmap :: Bitmap where
  "wide_bitmap = \<lparr>data = 2, width = 16777217, height = 1\<rparr>"

definition wide_memory :: memory where
  "wide_memory = \<lparr>blocks = [2 \<mapsto> replicate 16777217 0], brk = 3\<rparr>"

definition argb_to_rgba :: "u32 \<Rightarrow> u32" where
  "argb_to_rgba p = push_bit 24 (chan 16 p) OR push_bit 16 (chan 8 p) OR push_bit 8 (chan 0 p) OR chan 24 p"

definition rotate0_pixel :: "int \<Rightarrow> int \<Rightarrow> u32 list \<Rightarrow> nat \<Rightarrow> u32" where
  "rotate0_pixel w h px k =
     (if int k mod w < w - 1 \<and> int k div w < h - 1 then applyColor (argb_to_rgba (px ! k)) 0 else 0)"

definition opaque_bitmap :: Bitmap where
  "opaque_bitmap = \<lparr>data = 2, width = 3, height = 3\<rparr>"

definition opaque_memory :: memory where
  "opaque_memory = \<lparr>blocks = [2 \<mapsto> replicate 9 0xFF000000], brk = 3\<rparr>"

definition same_shape :: "memory \<Rightarrow> memory \<Rightarrow> bool" where
  "same_shape m m' \<longleftrightarrow>
     brk m' = brk m \<and> (\<forall>q. map_option length (blocks m' q) = map_option length (blocks m q))"

definition pixels :: "memory \<Rightarrow> nat \<Rightarrow> nat \<Rightarrow> bool" where
  "pixels m p n \<longleftrightarrow> map_option length (blocks m p) = Some n"

definition ring_angle :: "nat \<Rightarrow> rat" where
  "ring_angle k = ((\<lambda>a. fadd a (f32 (1 / 100))) ^^ k) 0"

definition ring_ok :: "(rat \<Rightarrow> rat) \<Rightarrow> (rat \<Rightarrow> rat) \<Rightarrow> bool" where
  "ring_ok sn cs \<longleftrightarrow>
     (\<forall>k. ring_angle k < dmul 2 M_PI \<longrightarrow>
        \<bar>sn (ring_angle k)\<bar> \<le> 1 \<and> \<bar>cs (ring_angle k)\<bar> \<le> 1
        \<and> sn (ring_angle k) \<le> 1 - 1 / 2 ^ 22
        \<and> (sn (ring_angle k) \<le> 24 / 25 \<or> cs (ring_angle k) \<le> 24 / 25))"

definition fade :: "nat \<Rightarrow> rat" where
  "fade n = ((\<lambda>a. fsub a (f32 (3 / 100))) ^^ n) 1"


definition rippling :: "int \<Rightarrow> int \<Rightarrow> nat \<Rightarrow> nat \<Rightarrow> nat \<Rightarrow> ripples \<Rightarrow> bool" where
  "rippling x y p d n st \<longleftrightarrow>
     rippleArray st = (replicate 5 no_ripple)[0 := \<lparr>bitmap = \<lparr>data = p, width = 100, height = 100\<rparr>,
          radius = 20 + of_nat n, alpha = fade n, Ripple.tileX = x, Ripple.tileY = y, active = 1\<rparr>]
     \<and> pixels (heap st) p 10000 \<and> pixels (heap st) d 518400 \<and> p \<noteq> 0"


definition start_memory :: memory where
  "start_memory = \<lparr>blocks = [2 \<mapsto> replicate 518400 0], brk = 3\<rparr>"

definition start_display :: Display where
  "start_display = \<lparr>buffer = 2\<rparr>"

definition start_camera :: Camera where
  "start_camera = \<lparr>tileX = 0, tileY = 0, pixelX = 0, pixelY = 0, destTileX = 0, destTileY = 0,
     accelX = 0, accelY = 0, velocityX = 0, velocityY = 0\<rparr>"

definition sin_0 :: "rat \<Rightarrow> rat" where
  "sin_0 = (\<lambda>a. 0)"

definition cos_0 :: "rat \<Rightarrow> rat" where
  "cos_0 = (\<lambda>a. 1)"

section \<open>Properties\<close>

lemma rne_of_int: "rne (of_int k) = k"
  by (simp add: rne_def)

lemma flog2_lower: assumes "0 < x" shows "2 powi (flog2 x) \<le> x"
proof (cases "1 \<le> x")
  case True
  then have pos: "0 < \<lfloor>x\<rfloor>" by linarith
  from bitlen_bounds[OF pos] have "2 ^ nat (bitlen \<lfloor>x\<rfloor> - 1) \<le> \<lfloor>x\<rfloor>" by simp
  then have "(of_int (2 ^ nat (bitlen \<lfloor>x\<rfloor> - 1)) :: rat) \<le> of_int \<lfloor>x\<rfloor>"
    by (simp only: of_int_le_iff)
  also have "\<dots> \<le> x" by simp
  finally have "(2::rat) ^ nat (bitlen \<lfloor>x\<rfloor> - 1) \<le> x" by simp
  moreover have "0 \<le> bitlen \<lfloor>x\<rfloor> - 1" using pos by (simp add: bitlen_alt_def)
  ultimately show ?thesis using True by (simp add: flog2_def power_int_def)
next
  case False
  with assms have x1: "x < 1" by simp
  define c where "c = \<lceil>1 / x\<rceil> - 1"
  have "1 < 1 / x" using assms x1 by simp
  then have cpos: "0 < c" unfolding c_def by linarith
  from bitlen_bounds[OF cpos] have "c < 2 ^ nat (bitlen c)" by simp
  then have "c + 1 \<le> 2 ^ nat (bitlen c)" by simp
  then have "(of_int (c + 1) :: rat) \<le> of_int (2 ^ nat (bitlen c))" by (simp only: of_int_le_iff)
  moreover have "1 / x \<le> of_int (c + 1)" unfolding c_def by simp
  ultimately have "1 / x \<le> 2 ^ nat (bitlen c)" by simp
  then have "1 / 2 ^ nat (bitlen c) \<le> x" using assms
    by (simp add: field_simps)
  moreover have "0 < bitlen c" using cpos bitlen_eq_zero_iff[of c] bitlen_nonneg[of c] by linarith
  ultimately show ?thesis using False
    by (simp add: flog2_def power_int_def c_def field_simps)
qed

lemma rne_err: "\<bar>of_int (rne m) - m\<bar> \<le> 1 / 2"
proof -
  define n where "n = \<lfloor>m\<rfloor>"
  define d where "d = m - of_int n"
  have d: "0 \<le> d" "d < 1" unfolding d_def n_def by linarith+
  have m: "m = of_int n + d" by (simp add: d_def)
  have "rne m = n \<and> d \<le> 1 / 2 \<or> rne m = n + 1 \<and> 1 / 2 \<le> d"
    unfolding rne_def Let_def n_def[symmetric] d_def[symmetric] by auto
  then show ?thesis using d unfolding m by auto
qed

lemma rne_nonneg: "0 \<le> m \<Longrightarrow> 0 \<le> rne m"
  unfolding rne_def Let_def by (auto simp: add_nonneg_nonneg)

lemma f32_0: "f32 0 = 0" by (simp add: f32_def)

lemma f32_nonneg: "0 \<le> x \<Longrightarrow> 0 \<le> f32 x"
  unfolding f32_def Let_def by (auto simp: rne_nonneg sgn_if)

lemma f32_err: assumes "0 \<le> x" shows "\<bar>f32 x - x\<bar> \<le> x / 2 ^ 24 + 1 / 2 ^ 150"
proof (cases "x = 0")
  case True then show ?thesis by (simp add: f32_0)
next
  case False
  with assms have xp: "0 < x" by simp
  define e where "e = max (flog2 x) (- 126)"
  define q :: rat where "q = 2 powi (e - 23)"
  have qp: "0 < q" unfolding q_def by simp
  have fx: "f32 x = of_int (rne (x / q)) * q"
    using xp by (simp add: f32_def Let_def e_def q_def)
  have "\<bar>f32 x - x\<bar> = \<bar>of_int (rne (x / q)) - x / q\<bar> * q"
  proof -
    have "f32 x - x = (of_int (rne (x / q)) - x / q) * q"
      using qp by (simp add: fx left_diff_distrib)
    then show ?thesis using qp by (simp add: abs_mult)
  qed
  also have "\<dots> \<le> 1 / 2 * q" using rne_err[of "x / q"] qp by (intro mult_right_mono) auto
  finally have b: "\<bar>f32 x - x\<bar> \<le> q / 2" by simp
  have "q / 2 = 2 powi (e - 24)"
    unfolding q_def by (simp add: power_int_diff)
  also have "\<dots> \<le> x / 2 ^ 24 + 1 / 2 ^ 150"
  proof (cases "- 126 \<le> flog2 x")
    case True
    then have "e = flog2 x" by (simp add: e_def)
    then have "(2::rat) powi (e - 24) = 2 powi (flog2 x) / 2 ^ 24" by (simp add: power_int_diff)
    also have "\<dots> \<le> x / 2 ^ 24" using flog2_lower[OF xp] by (simp add: divide_right_mono)
    finally show ?thesis by simp
  next
    case False
    then have "e = - 126" by (simp add: e_def)
    then have "(2::rat) powi (e - 24) = 1 / 2 ^ 150" by (simp add: power_int_def field_simps)
    then show ?thesis using xp by simp
  qed
  finally show ?thesis using b by simp
qed

lemma f32_of_int: assumes "\<bar>n\<bar> \<le> 2 ^ 24" shows "f32 (of_int n) = of_int n"
proof (cases "n = 0")
  case True then show ?thesis by (simp add: f32_0)
next
  case False
  define k where "k = \<bar>n\<bar>"
  have kp: "0 < k" "k \<le> 2 ^ 24" using False assms by (simp_all add: k_def)
  have fl: "flog2 (of_int k) = bitlen k - 1"
    using kp by (simp add: flog2_def)
  from bitlen_bounds[OF kp(1)] have "(2::int) ^ nat (bitlen k - 1) \<le> 2 ^ 24" using kp by simp
  then have "nat (bitlen k - 1) \<le> 24" by (rule power_le_imp_le_exp[rotated]) simp
  moreover have b1: "1 \<le> bitlen k" using kp bitlen_eq_zero_iff[of k] bitlen_nonneg[of k] by linarith
  ultimately have e: "0 \<le> bitlen k - 1" "bitlen k - 1 \<le> 24" by auto
  define e' where "e' = bitlen k - 1"
  have mx: "max (flog2 (of_int k)) (- 126) = e'" using e fl by (simp add: e'_def)
  have "\<exists>j. (of_int k :: rat) / 2 powi (e' - 23) = of_int j"
  proof (cases "e' \<le> 23")
    case True
    then have "(2::rat) powi (e' - 23) = 1 / 2 ^ nat (23 - e')"
      by (simp add: power_int_def field_simps)
    then have "(of_int k :: rat) / 2 powi (e' - 23) = of_int (k * 2 ^ nat (23 - e'))" by simp
    then show ?thesis by blast
  next
    case False
    then have e24: "e' = 24" using e by (simp add: e'_def)
    from bitlen_bounds[OF kp(1)] have "2 ^ 24 \<le> k" using e24 by (simp add: e'_def)
    then have "k = 2 ^ 24" using kp by simp
    then have "(of_int k :: rat) / 2 powi (e' - 23) = of_int (2 ^ 23)" using e24 by simp
    then show ?thesis by blast
  qed
  then obtain j where j: "(of_int k :: rat) / 2 powi (e' - 23) = of_int j" ..
  have "of_int j * (2::rat) powi (e' - 23) = of_int k"
    using j[symmetric] by simp
  then have "f32 (of_int n) = sgn (of_int n) * of_int k" 
    using False mx j by (simp add: f32_def Let_def k_def[symmetric] rne_of_int flip: of_int_abs)
  also have "\<dots> = of_int n" by (simp add: k_def sgn_if)
  finally show ?thesis .
qed

lemma chan_lt: "uint (chan k c) < 256" "0 \<le> uint (chan k c)"
proof -
  have "chan k c \<le> 0xFF" unfolding chan_def by (rule word_and_le1)
  then have "uint (chan k c) \<le> uint (0xFF :: u32)" by (simp only: word_le_def)
  then show "uint (chan k c) < 256" by simp
  show "0 \<le> uint (chan k c)" by simp
qed

lemma and255_lt: "uint ((c::u32) AND 0xFF) < 256"
  using chan_lt(1)[of 0 c] by (simp add: chan_def)

lemma mask8: "(0xFF :: u32) = mask 8" by (simp add: mask_eq_exp_minus_1)

lemma pack_alpha: "pack r g b a AND 0xFF = a AND 0xFF"
  unfolding pack_def mask8
  by (rule bit_word_eqI) (auto simp: bit_simps)

lemma pack_chan:
  assumes "0 \<le> r" "r < 256" "0 \<le> g" "g < 256" "0 \<le> b" "b < 256"
  shows "chan 24 (pack r g b a) = word_of_int r" "chan 16 (pack r g b a) = word_of_int g"
    "chan 8 (pack r g b a) = word_of_int b" 
proof -
  have r: "r = take_bit 8 r" and g: "g = take_bit 8 g" and b: "b = take_bit 8 b"
    using assms by (simp_all add: take_bit_int_eq_self)
  show "chan 24 (pack r g b a) = word_of_int r"
    apply (subst (2) r) apply (subst g) apply (subst b)
    unfolding pack_def chan_def mask8
    by (rule bit_word_eqI) (auto simp: bit_simps)
  show "chan 16 (pack r g b a) = word_of_int g"
    apply (subst r)  apply (subst (2) g) apply (subst b)
    unfolding pack_def chan_def mask8
    by (rule bit_word_eqI) (auto simp: bit_simps)
  show "chan 8 (pack r g b a) = word_of_int b"
    apply (subst r)  apply (subst g) apply (subst (2) b)
    unfolding pack_def chan_def mask8
    by (rule bit_word_eqI) (auto simp: bit_simps)
qed

lemma unpack: "pack (uint (chan 24 c)) (uint (chan 16 c)) (uint (chan 8 c)) c = (c::u32)"
  unfolding pack_def chan_def mask8
  apply (rule bit_word_eqI)
  subgoal for n
    by (cases "n < 8"; cases "n < 16"; cases "n < 24") (auto simp: bit_simps)
  done

lemma mask24: "(0xFFFFFF00 :: u32) = NOT (mask 8)" by (simp add: mask_eq_exp_minus_1)

lemma unpack0: "pack (uint (chan 24 c)) (uint (chan 16 c)) (uint (chan 8 c)) 0 = (c::u32) AND 0xFFFFFF00"
  unfolding pack_def chan_def mask8 mask24
  apply (rule bit_word_eqI)
  subgoal for n
    by (cases "n < 8"; cases "n < 16"; cases "n < 24") (auto simp: bit_simps)
  done

lemma i2f_small: "\<bar>n\<bar> \<le> 2 ^ 24 \<Longrightarrow> i2f n = of_int n"
  by (simp add: i2f_def f32_of_int)

lemma f32_upper: "0 \<le> x \<Longrightarrow> f32 x \<le> x + x / 2 ^ 24 + 1 / 2 ^ 150"
  using f32_err[of x] by linarith

lemma f32_1: "f32 1 = 1" using f32_of_int[of 1] by simp

lemma alpha_unit:
  assumes "0 \<le> k" "k < 256"
  shows "0 \<le> fdiv (i2f k) 255" "fdiv (i2f k) 255 \<le> 1"
proof -
  have k: "i2f k = of_int k" using assms by (simp add: i2f_small)
  show "0 \<le> fdiv (i2f k) 255" using assms by (simp add: fdiv_def k f32_nonneg)
  show "fdiv (i2f k) 255 \<le> 1"
  proof (cases "k = 255")
    case True
    have "i2f 255 = 255" using i2f_small[of 255] by simp
    with True show ?thesis by (simp add: fdiv_def f32_1)
  next
    case False
    then have "k \<le> 254" using assms by simp
    then have "(of_int k :: rat) \<le> 254" by (metis of_int_le_iff of_int_numeral)
    then have le: "(of_int k :: rat) / 255 \<le> 254 / 255" by simp
    have "0 \<le> (of_int k :: rat) / 255" using assms by simp
    from f32_upper[OF this] le show ?thesis unfolding fdiv_def k by simp
  qed
qed

lemma f32_upper': "0 \<le> x \<Longrightarrow> f32 x \<le> (16777217 / 16777216) * x + 1 / 16777216"
proof -
  assume x: "0 \<le> x"
  have "(1::rat) / 2 ^ 150 \<le> 1 / 2 ^ 24"
    by (intro divide_left_mono power_increasing) simp_all
  with f32_upper[OF x] show ?thesis by simp
qed

lemma blend_bounds:
  assumes a: "0 \<le> a" "a \<le> 1" and d: "0 \<le> d" "d < 256" and s: "0 \<le> s" "s < 256"
  defines "v \<equiv> fadd (fmul (fsub 1 a) (i2f d)) (fmul a (i2f s))"
  shows "0 \<le> f2i v" "f2i v < 256"
proof -
  have dd: "i2f d = of_int d" and ss: "i2f s = of_int s" using d s by (simp_all add: i2f_small)
  have D: "(0::rat) \<le> of_int d" "(of_int d :: rat) \<le> 255" using d by simp_all
  have S: "(0::rat) \<le> of_int s" "(of_int s :: rat) \<le> 255" using s by simp_all
  define b where "b = fsub 1 a"
  define X where "X = b * of_int d"
  define Y where "Y = a * of_int s"
  define p1 where "p1 = f32 X"
  define p2 where "p2 = f32 Y"
  have b0: "0 \<le> b" unfolding b_def fsub_def using a by (simp add: f32_nonneg)
  define c where "c = 1 - a"
  have c: "0 \<le> c" "c \<le> 1" "c = 1 - a" using a by (simp_all add: c_def)
  have b1: "b \<le> (16777217 / 16777216) * c + 1 / 16777216"
    unfolding b_def fsub_def c_def using a by (intro f32_upper') simp
  have X0: "0 \<le> X" unfolding X_def using b0 D by simp
  have X1: "X \<le> b * 255" unfolding X_def using b0 D by (intro mult_left_mono) simp_all
  have Y0: "0 \<le> Y" unfolding Y_def using a S by simp
  have Y1: "Y \<le> a * 255" unfolding Y_def using a S by (intro mult_left_mono) simp_all
  have p10: "0 \<le> p1" unfolding p1_def using X0 by (rule f32_nonneg)
  have p11: "p1 \<le> (16777217 / 16777216) * X + 1 / 16777216"
    unfolding p1_def using X0 by (rule f32_upper')
  have p20: "0 \<le> p2" unfolding p2_def using Y0 by (rule f32_nonneg)
  have p21: "p2 \<le> (16777217 / 16777216) * Y + 1 / 16777216"
    unfolding p2_def using Y0 by (rule f32_upper')
  have v: "v = f32 (p1 + p2)"
    by (simp add: v_def fadd_def fmul_def p1_def p2_def X_def Y_def b_def dd ss)
  have v0: "0 \<le> v" unfolding v using p10 p20 by (intro f32_nonneg) simp
  define sm where "sm = p1 + p2"
  have v2: "v \<le> (16777217 / 16777216) * sm + 1 / 16777216"
    unfolding v sm_def using p10 p20 by (intro f32_upper') simp
  have b2: "b \<le> c + 2 / 16777216" using b1 c by linarith
  have X2: "X \<le> 255 * c + 510 / 16777216" using X1 b2 by linarith
  have X3: "X \<le> 256" using X2 c by linarith
  have p12: "p1 \<le> 255 * c + 767 / 16777216" using p11 X2 X3 by linarith
  have p22: "p2 \<le> 255 * a + 257 / 16777216" using p21 Y1 a by linarith
  have s1: "sm \<le> 255 + 1024 / 16777216" using p12 p22 c unfolding sm_def by linarith
  have v1: "v < 256" using v2 s1 by linarith
  show "0 \<le> f2i v" using v0 by (simp add: f2i_def)
  show "f2i v < 256" using v0 v1 by (simp add: f2i_def floor_less_iff)
qed

lemma applyColor_pack:
  "applyColor src dest =
    (let a = fdiv (i2f (uint (src AND 0xFF))) 255 in
     pack (f2i (fadd (fmul (fsub 1 a) (i2f (uint (chan 24 dest)))) (fmul a (i2f (uint (chan 24 src))))))
          (f2i (fadd (fmul (fsub 1 a) (i2f (uint (chan 16 dest)))) (fmul a (i2f (uint (chan 16 src))))))
          (f2i (fadd (fmul (fsub 1 a) (i2f (uint (chan 8 dest)))) (fmul a (i2f (uint (chan 8 src))))))
          src)"
  by (simp add: applyColor_def pack_def Let_def)

lemma uint_word_of_int_small: "0 \<le> r \<Longrightarrow> r < 256 \<Longrightarrow> uint (word_of_int r :: u32) = r"
  by (simp add: uint_word_of_int take_bit_int_eq_self)

lemma applyColor_channels:
  fixes src dest :: u32
  defines "a \<equiv> fdiv (i2f (uint (src AND 0xFF))) 255"
  shows "uint (chan 24 (applyColor src dest)) =
           f2i (fadd (fmul (fsub 1 a) (i2f (uint (chan 24 dest)))) (fmul a (i2f (uint (chan 24 src)))))"
    and "uint (chan 16 (applyColor src dest)) =
           f2i (fadd (fmul (fsub 1 a) (i2f (uint (chan 16 dest)))) (fmul a (i2f (uint (chan 16 src)))))"
    and "uint (chan 8 (applyColor src dest)) =
           f2i (fadd (fmul (fsub 1 a) (i2f (uint (chan 8 dest)))) (fmul a (i2f (uint (chan 8 src)))))"
    and "applyColor src dest AND 0xFF = src AND 0xFF"
proof -
  have a: "0 \<le> a" "a \<le> 1" unfolding a_def
    using alpha_unit[of "uint (src AND 0xFF)"] and255_lt[of src] by simp_all
  note bb = blend_bounds[OF a chan_lt(2) chan_lt(1) chan_lt(2) chan_lt(1)]
  note pc = pack_chan[OF bb[of 24 dest 24 src] bb[of 16 dest 16 src] bb[of 8 dest 8 src]]
  show "uint (chan 24 (applyColor src dest)) =
           f2i (fadd (fmul (fsub 1 a) (i2f (uint (chan 24 dest)))) (fmul a (i2f (uint (chan 24 src)))))"
    unfolding applyColor_pack Let_def a_def[symmetric]
    by (simp only: pc uint_word_of_int_small[OF bb])
  show "uint (chan 16 (applyColor src dest)) =
           f2i (fadd (fmul (fsub 1 a) (i2f (uint (chan 16 dest)))) (fmul a (i2f (uint (chan 16 src)))))"
    unfolding applyColor_pack Let_def a_def[symmetric]
    by (simp only: pc uint_word_of_int_small[OF bb])
  show "uint (chan 8 (applyColor src dest)) =
           f2i (fadd (fmul (fsub 1 a) (i2f (uint (chan 8 dest)))) (fmul a (i2f (uint (chan 8 src)))))"
    unfolding applyColor_pack Let_def a_def[symmetric]
    by (simp only: pc uint_word_of_int_small[OF bb])
  show "applyColor src dest AND 0xFF = src AND 0xFF"
    unfolding applyColor_pack Let_def by (rule pack_alpha)
qed

lemma blend_a0: "0 \<le> d \<Longrightarrow> d < 256 \<Longrightarrow> f2i (fadd (fmul (fsub 1 0) (i2f d)) (fmul 0 (i2f s))) = d"
  by (simp add: fadd_def fmul_def fsub_def f32_1 f32_0 i2f_small f32_of_int f2i_def)

lemma blend_a1: "0 \<le> s \<Longrightarrow> s < 256 \<Longrightarrow> f2i (fadd (fmul (fsub 1 1) (i2f d)) (fmul 1 (i2f s))) = s"
  by (simp add: fadd_def fmul_def fsub_def f32_1 f32_0 i2f_small f32_of_int f2i_def)

lemma alpha0: "fdiv (i2f 0) 255 = 0" by (simp add: fdiv_def i2f_def f32_0)

lemma alpha255: "fdiv (i2f 255) 255 = 1" using i2f_small[of 255] by (simp add: fdiv_def f32_1)

lemma applyColor_alpha_0:
  assumes z: "src AND 0xFF = 0" shows "applyColor src dest = dest AND 0xFFFFFF00"
proof -
  have "applyColor src dest = pack (uint (chan 24 dest)) (uint (chan 16 dest)) (uint (chan 8 dest)) src"
    unfolding applyColor_pack Let_def z by (simp add: alpha0 blend_a0 chan_lt)
  also have "\<dots> = pack (uint (chan 24 dest)) (uint (chan 16 dest)) (uint (chan 8 dest)) 0"
    unfolding pack_def z by simp
  finally show ?thesis by (simp add: unpack0)
qed

lemma applyColor_alpha_255:
  assumes f: "src AND 0xFF = 0xFF" shows "applyColor src dest = src"
proof -
  have "applyColor src dest = pack (uint (chan 24 src)) (uint (chan 16 src)) (uint (chan 8 src)) src"
    unfolding applyColor_pack Let_def f by (simp add: alpha255 blend_a1 chan_lt)
  then show ?thesis by (simp add: unpack)
qed

text \<open>
  Claim C3, amended. For every source and destination color, \<^verbatim>\<open>applyColor\<close> computes
  \<open>a = alpha(src) / 255\<close> in single precision and sets each of the R, G and B channels
  of the destination to the single-precision value of \<open>(1 - a) * dest_channel + a * src_channel\<close>
  truncated towards zero (the conversion to \<^verbatim>\<open>int\<close>), not rounded; the alpha channel
  of the result is exactly \<open>alpha(src)\<close>, whatever the destination's alpha was.
\<close>

theorem applyColor_blend:
  "(let a = fdiv (i2f (uint (src AND 0xFF))) 255 in
     uint (chan 24 (applyColor src dest)) =
       f2i (fadd (fmul (fsub 1 a) (i2f (uint (chan 24 dest)))) (fmul a (i2f (uint (chan 24 src))))) \<and>
     uint (chan 16 (applyColor src dest)) =
       f2i (fadd (fmul (fsub 1 a) (i2f (uint (chan 16 dest)))) (fmul a (i2f (uint (chan 16 src))))) \<and>
     uint (chan 8 (applyColor src dest)) =
       f2i (fadd (fmul (fsub 1 a) (i2f (uint (chan 8 dest)))) (fmul a (i2f (uint (chan 8 src)))))) \<and>
   applyColor src dest AND 0xFF = src AND 0xFF"
  unfolding Let_def using applyColor_channels[of src dest] by simp

text \<open>
  Claim C3 as stated fails: with source alpha 128, source red 3 and destination red 0 the
  blend is about 1.506; the code stores 1, its rounding is 2.
\<close>

theorem applyColor_not_rounded:
  "uint (chan 24 (applyColor 0x03000080 0)) = 1 \<and>
   round ((1 - 128 / 255) * 0 + 128 / 255 * (3 :: rat)) = 2"
  by code_simp

text \<open>
  Claim C4, amended. With a source of alpha 0 the destination keeps its R, G and B
  channels and its alpha channel becomes 0, the source's alpha (so the destination is
  unchanged only if its alpha was 0 already); with a source of alpha 255 the destination
  becomes the source: its R, G, B and its alpha.
\<close>

theorem applyColor_alpha_0_255:
  "(src AND 0xFF = 0 \<longrightarrow> applyColor src dest = dest AND 0xFFFFFF00) \<and>
   (src AND 0xFF = 0xFF \<longrightarrow> applyColor src dest = src)"
  using applyColor_alpha_0 applyColor_alpha_255 by blast

theorem applyColor_alpha_0_255_witness:
  "((0x11223300 :: u32) AND 0xFF = 0 \<and> applyColor 0x11223300 0xAABBCCDD = 0xAABBCC00) \<and>
   ((0x112233FF :: u32) AND 0xFF = 0xFF \<and> applyColor 0x112233FF 0xAABBCCDD = 0x112233FF)"
  using applyColor_alpha_0_255[of "0x11223300" "0xAABBCCDD"] applyColor_alpha_0_255[of "0x112233FF" "0xAABBCCDD"]
  by simp

text \<open>
  Claim C4 as stated fails: a transparent source (alpha 0) on the opaque destination
  \<^verbatim>\<open>0x000000FF\<close> clears the destination's alpha.
\<close>

theorem applyColor_alpha_0_clears_alpha:
  "(0 :: u32) AND 0xFF = 0 \<and> applyColor 0 0x000000FF = 0 \<and> (0x000000FF :: u32) \<noteq> 0"
  using applyColor_alpha_0[of 0 "0x000000FF"] by simp

lemma set_qsort_insert: "set (qsort_insert c a xs) = insert a (set xs)"
  by (induction xs) auto

lemma length_qsort_insert: "length (qsort_insert c a xs) = Suc (length xs)"
  by (induction xs) auto

lemma set_qsort: "set (qsort xs c) = set xs"
  unfolding qsort_def by (induction xs) (auto simp: set_qsort_insert)

lemma length_qsort: "length (qsort xs c) = length xs"
  unfolding qsort_def by (induction xs) (auto simp: length_qsort_insert)

lemma distinct_map_qsort_insert:
  "distinct (map f (qsort_insert c a xs)) \<longleftrightarrow> f a \<notin> f ` set xs \<and> distinct (map f xs)"
  by (induction xs) (auto simp: set_qsort_insert)

lemma distinct_map_qsort: "distinct (map f (qsort xs c)) \<longleftrightarrow> distinct (map f xs)"
proof (induction xs)
  case Nil
  then show ?case by (simp add: qsort_def)
next
  case (Cons a xs)
  have "qsort (a # xs) c = qsort_insert c a (qsort xs c)" by (simp add: qsort_def)
  then show ?case using Cons by (simp add: distinct_map_qsort_insert set_qsort)
qed

lemma sorted_qsort_insert:
  "sorted (map flatCoord xs) \<Longrightarrow> sorted (map flatCoord (qsort_insert tileCompare a xs))"
  by (induction xs) (auto simp: set_qsort_insert tileCompare_def)

lemma sorted_qsort: "sorted (map flatCoord (qsort xs tileCompare))"
  unfolding qsort_def by (induction xs) (auto simp: sorted_qsort_insert)

lemma bsearch_loop_found:
  "bsearch_loop c key base l u = Some i \<Longrightarrow> l \<le> i \<and> i < u \<and> c key (base ! i) = 0"
proof (induction c key base l u rule: bsearch_loop.induct)
  case (1 compar key base l u)
  show ?case
  proof (cases "l < u")
    case False
    with "1.prems" show ?thesis by (simp add: bsearch_loop.simps)
  next
    case True
    define idx where "idx = (l + u) div 2"
    have b: "l \<le> idx" "idx < u" using True by (simp_all add: idx_def)
    consider "compar key (base ! idx) < 0" | "0 < compar key (base ! idx)" | "compar key (base ! idx) = 0"
      by linarith
    then show ?thesis
    proof cases
      case 1
      with "1.prems" True have "bsearch_loop compar key base l idx = Some i"
        by (subst (asm) bsearch_loop.simps) (simp add: idx_def Let_def)
      from "1.IH"(1)[OF True idx_def refl 1 this] b show ?thesis by simp
    next
      case 2
      then have n: "\<not> compar key (base ! idx) < 0" by simp
      from 2 "1.prems" True have "bsearch_loop compar key base (idx + 1) u = Some i"
        by (subst (asm) bsearch_loop.simps) (simp add: idx_def Let_def)
      from "1.IH"(2)[OF True idx_def refl n 2 this] b show ?thesis by simp
    next
      case 3
      with "1.prems" True have "i = idx"
        by (subst (asm) bsearch_loop.simps) (simp add: idx_def Let_def)
      with 3 b show ?thesis by simp
    qed
  qed
qed

lemma bsearch_loop_complete:
  assumes "c = tileCompare" "sorted (map flatCoord base)" "u \<le> length base"
    and "l \<le> j" "j < u" "flatCoord (base ! j) = flatCoord key"
  shows "bsearch_loop c key base l u \<noteq> None"
  using assms
proof (induction c key base l u rule: bsearch_loop.induct)
  case (1 c key base l u)
  note IH = "1.IH" and prems = "1.prems"
  have c: "c = tileCompare" by fact
  have lu: "l < u" using prems by simp
  define idx where "idx = (l + u) div 2"
  have b: "l \<le> idx" "idx < u" using lu by (simp_all add: idx_def)
  have srt: "\<And>p q. p \<le> q \<Longrightarrow> q < length base \<Longrightarrow> flatCoord (base ! p) \<le> flatCoord (base ! q)"
    using prems(2) by (simp add: sorted_iff_nth_mono)
  consider (lt) "c key (base ! idx) < 0" | (gt) "0 < c key (base ! idx)"
    | (eq) "c key (base ! idx) = 0"
    by linarith
  then show ?case
  proof cases
    case lt
    have "j < idx"
    proof (rule ccontr)
      assume "\<not> j < idx"
      then have "flatCoord (base ! idx) \<le> flatCoord (base ! j)"
        using srt[of idx j] prems by simp
      with lt prems show False by (simp add: tileCompare_def)
    qed
    with IH(1)[OF lu idx_def refl lt c prems(2)] prems b
    have "bsearch_loop c key base l idx \<noteq> None" by simp
    then show ?thesis using lu lt by (subst bsearch_loop.simps) (simp add: idx_def Let_def)
  next
    case gt
    then have n: "\<not> c key (base ! idx) < 0" by simp
    have "idx < j"
    proof (rule ccontr)
      assume "\<not> idx < j"
      then have "flatCoord (base ! j) \<le> flatCoord (base ! idx)"
        using srt[of j idx] prems b by simp
      with gt prems show False by (simp add: tileCompare_def)
    qed
    with IH(2)[OF lu idx_def refl n gt c prems(2)] prems b
    have "bsearch_loop c key base (idx + 1) u \<noteq> None" by simp
    then show ?thesis using lu gt by (subst bsearch_loop.simps) (simp add: idx_def Let_def)
  next
    case eq
    then show ?thesis using lu by (subst bsearch_loop.simps) (simp add: idx_def Let_def)
  qed
qed

lemma borderCollide_iff:
  assumes "sorted (map flatCoord tileArray)" "length tileArray = MAPLENGTH"
  shows "borderCollide x y tileArray = 0 \<longleftrightarrow> (y * MAPWIDTH) + x \<in> flatCoord ` set tileArray"
    and "borderCollide x y tileArray = 1 \<longleftrightarrow> (y * MAPWIDTH) + x \<notin> flatCoord ` set tileArray"
proof -
  define tile where "tile = \<lparr>tile_x = x, tile_y = y, flatCoord = (y * MAPWIDTH) + x\<rparr>"
  have "bsearch tile tileArray MAPLENGTH tileCompare \<noteq> None \<longleftrightarrow> flatCoord tile \<in> flatCoord ` set tileArray"
  proof
    assume "bsearch tile tileArray MAPLENGTH tileCompare \<noteq> None"
    then obtain i where "bsearch_loop tileCompare tile tileArray 0 MAPLENGTH = Some i"
      by (auto simp: bsearch_def)
    from bsearch_loop_found[OF this] assms(2)
    have "i < length tileArray" "flatCoord (tileArray ! i) = flatCoord tile"
      by (simp_all add: tileCompare_def)
    then show "flatCoord tile \<in> flatCoord ` set tileArray"
      by (metis imageI nth_mem)
  next
    assume "flatCoord tile \<in> flatCoord ` set tileArray"
    then obtain j where "j < length tileArray" "flatCoord (tileArray ! j) = flatCoord tile"
      by (auto simp: in_set_conv_nth)
    with bsearch_loop_complete[OF refl assms(1), of MAPLENGTH 0 j tile] assms(2)
    show "bsearch tile tileArray MAPLENGTH tileCompare \<noteq> None"
      by (simp add: bsearch_def)
  qed
  then show "borderCollide x y tileArray = 0 \<longleftrightarrow> (y * MAPWIDTH) + x \<in> flatCoord ` set tileArray"
    and "borderCollide x y tileArray = 1 \<longleftrightarrow> (y * MAPWIDTH) + x \<notin> flatCoord ` set tileArray"
    by (simp_all add: borderCollide_def Let_def tile_def)
qed

lemma list_ex_coords: "list_ex (\<lambda>p. tile_x p = x \<and> tile_y p = y) tiles \<longleftrightarrow> (x, y) \<in> coords ` set tiles"
  by (auto simp: list_ex_iff coords_def)

lemma push_tile_eq:
  "push_tile tiles x y =
     (if (x, y) \<in> coords ` set tiles then tiles
      else tiles @ [\<lparr>tile_x = x, tile_y = y, flatCoord = (y * MAPWIDTH) + x\<rparr>])"
  by (simp add: push_tile_def list_ex_coords)

lemma walk_clamp_bound: "\<bar>fst (walk_clamp p)\<bar> \<le> 1000" "\<bar>snd (walk_clamp p)\<bar> \<le> 1000"
proof -
  obtain a b where p: "p = (a, b)" by (cases p)
  show "\<bar>fst (walk_clamp p)\<bar> \<le> 1000" unfolding p
    by (auto simp add: walk_clamp_def Let_def MAPWIDTH_def MAPHEIGHT_def)
  show "\<bar>snd (walk_clamp p)\<bar> \<le> 1000" unfolding p
    by (auto simp add: walk_clamp_def Let_def MAPWIDTH_def MAPHEIGHT_def)
qed

lemma initMap_body_tiles:
  "fst (initMap_body rand (tiles, x, y, r2, i, k)) = push_tile tiles x y"
  by (simp add: Let_def)

lemma initMap_body_pos:
  assumes "initMap_body rand (tiles, x, y, r2, i, k) = (tiles', x', y', r2', i', k')"
  shows "\<bar>x'\<bar> \<le> 1000" "\<bar>y'\<bar> \<le> 1000"
proof -
  have "\<bar>fst (snd (initMap_body rand (tiles, x, y, r2, i, k)))\<bar> \<le> 1000"
    "\<bar>fst (snd (snd (initMap_body rand (tiles, x, y, r2, i, k))))\<bar> \<le> 1000"
    by (simp_all add: Let_def walk_clamp_bound)
  then show "\<bar>x'\<bar> \<le> 1000" "\<bar>y'\<bar> \<le> 1000" by (simp_all only: assms fst_conv snd_conv)
qed

lemma walk_inv_body:
  assumes "walk_inv s" "length (fst s) < MAPLENGTH"
  shows "walk_inv (initMap_body rand s)"
proof -
  obtain tiles x y r2 i k where s: "s = (tiles, x, y, r2, i, k)" by (cases s) auto
  obtain tiles' x' y' r2' i' k' where s': "initMap_body rand s = (tiles', x', y', r2', i', k')"
    by (cases "initMap_body rand s") auto
  have inv: "distinct (map coords tiles)"
    "\<forall>t \<in> set tiles. flatCoord t = (tile_y t * MAPWIDTH) + tile_x t \<and> \<bar>tile_x t\<bar> \<le> 1000 \<and> \<bar>tile_y t\<bar> \<le> 1000"
    "\<bar>x\<bar> \<le> 1000" "\<bar>y\<bar> \<le> 1000" "if tiles = [] then x = 0 \<and> y = 0 else coords (hd tiles) = (0, 0)"
    using assms(1) by (simp_all add: walk_inv_def s)
  have len: "length tiles < MAPLENGTH" using assms(2) by (simp add: s)
  have t': "tiles' = (if (x, y) \<in> coords ` set tiles then tiles
      else tiles @ [\<lparr>tile_x = x, tile_y = y, flatCoord = (y * MAPWIDTH) + x\<rparr>])"
    using initMap_body_tiles[of rand tiles x y r2 i k] s' s by (simp add: push_tile_eq)
  note pos = initMap_body_pos[OF s'[unfolded s]]
  have "distinct (map coords tiles')" using inv(1) by (auto simp: t' coords_def)
  moreover have "\<forall>t \<in> set tiles'. flatCoord t = (tile_y t * MAPWIDTH) + tile_x t \<and> \<bar>tile_x t\<bar> \<le> 1000 \<and> \<bar>tile_y t\<bar> \<le> 1000"
    using inv(2,3,4) by (auto simp: t')
  moreover have "length tiles' \<le> MAPLENGTH" using len by (simp add: t')
  moreover have "if tiles' = [] then x' = 0 \<and> y' = 0 else coords (hd tiles') = (0, 0)"
    using inv(5) by (cases tiles) (auto simp: t' coords_def)
  ultimately show ?thesis using pos by (simp add: walk_inv_def s')
qed

lemma walk_inv_init: "walk_inv ([], 0, 0, 0, 0, 0)"
  by (simp add: walk_inv_def)

lemma initMap_loop_inv:
  assumes "initMap_loop rand s = Some s'" "walk_inv s"
  shows "walk_inv s' \<and> length (fst s') = MAPLENGTH"
proof -
  have "walk_inv s \<longrightarrow> walk_inv s' \<and> length (fst s') = MAPLENGTH"
  proof (rule initMap_loop.raw_induct[where P = "\<lambda>rand s s'. walk_inv s \<longrightarrow> walk_inv s' \<and> length (fst s') = MAPLENGTH", OF _ assms(1)])
    fix loop :: "(nat \<Rightarrow> nat) \<Rightarrow> walk \<Rightarrow> walk option" and rand s s'
    assume IH: "\<And>r a b. loop r a = Some b \<Longrightarrow> walk_inv a \<longrightarrow> walk_inv b \<and> length (fst b) = MAPLENGTH"
      and eq: "(if length (fst s) < MAPLENGTH then loop rand (initMap_body rand s) else Some s) = Some s'"
    show "walk_inv s \<longrightarrow> walk_inv s' \<and> length (fst s') = MAPLENGTH"
    proof
      assume inv: "walk_inv s"
      show "walk_inv s' \<and> length (fst s') = MAPLENGTH"
      proof (cases "length (fst s) < MAPLENGTH")
        case True
        with eq have "loop rand (initMap_body rand s) = Some s'" by simp
        from IH[OF this] walk_inv_body[OF inv True] show ?thesis by simp
      next
        case False
        with eq have "s' = s" by simp
        moreover have "length (fst s) \<le> MAPLENGTH" using inv
          by (cases s) (simp add: walk_inv_def)
        ultimately show ?thesis using False inv by simp
      qed
    qed
  qed
  with assms(2) show ?thesis by simp
qed

lemma initMap_props:
  assumes "initMap rand = Some ts"
  shows "length ts = MAPLENGTH" "distinct (map coords ts)" "sorted (map flatCoord ts)"
    "\<forall>t \<in> set ts. flatCoord t = (tile_y t * MAPWIDTH) + tile_x t \<and> \<bar>tile_x t\<bar> \<le> 1000 \<and> \<bar>tile_y t\<bar> \<le> 1000"
    "(0, 0) \<in> coords ` set ts"
proof -
  from assms obtain s where s: "initMap_loop rand ([], 0, 0, 0, 0, 0) = Some s"
    and ts: "ts = qsort (fst s) tileCompare"
    by (auto simp: initMap_def split: option.splits)
  from initMap_loop_inv[OF s walk_inv_init] have inv: "walk_inv s" and len: "length (fst s) = MAPLENGTH"
    by simp_all
  obtain tiles x y r2 i k where ss: "s = (tiles, x, y, r2, i, k)" by (cases s) auto
  show "length ts = MAPLENGTH" using len by (simp add: ts length_qsort)
  show "distinct (map coords ts)" using inv by (simp add: ts distinct_map_qsort walk_inv_def ss)
  show "sorted (map flatCoord ts)" by (simp add: ts sorted_qsort)
  show "\<forall>t \<in> set ts. flatCoord t = (tile_y t * MAPWIDTH) + tile_x t \<and> \<bar>tile_x t\<bar> \<le> 1000 \<and> \<bar>tile_y t\<bar> \<le> 1000"
    using inv by (simp add: ts set_qsort walk_inv_def ss)
  have "tiles \<noteq> []" using len by (auto simp: ss MAPLENGTH_def)
  then have "coords (hd tiles) = (0, 0)" "hd tiles \<in> set tiles" using inv by (simp_all add: walk_inv_def ss)
  then show "(0, 0) \<in> coords ` set ts" by (metis imageI set_qsort ts ss fst_conv)
qed

lemma push_tile_length: "length (push_tile tiles x y) \<le> Suc (length tiles)"
  by (simp add: push_tile_eq)

lemma push_tile_prefix: "\<exists>zs. push_tile tiles x y = tiles @ zs"
  by (simp add: push_tile_eq)

lemma body_length: "length (fst (initMap_body rand s)) \<le> Suc (length (fst s))"
  by (cases s) (simp add: Let_def push_tile_length)

lemma body_prefix: "\<exists>zs. fst (initMap_body rand s) = fst s @ zs"
  by (cases s) (simp add: Let_def push_tile_prefix)

lemma funpow_prefix: "\<exists>zs. fst ((initMap_body rand ^^ n) s) = fst s @ zs"
proof (induction n)
  case 0
  then show ?case by simp
next
  case (Suc n)
  then obtain zs where zs: "fst ((initMap_body rand ^^ n) s) = fst s @ zs" ..
  from body_prefix[of rand "(initMap_body rand ^^ n) s"] obtain ys
    where "fst (initMap_body rand ((initMap_body rand ^^ n) s)) = fst ((initMap_body rand ^^ n) s) @ ys" ..
  then show ?case by (simp add: zs)
qed

lemma initMap_loop_funpow:
  assumes "length (fst ((initMap_body rand ^^ n) s)) = MAPLENGTH" "length (fst s) \<le> MAPLENGTH"
  shows "map_option fst (initMap_loop rand s) = Some (fst ((initMap_body rand ^^ n) s))"
  using assms
proof (induction n arbitrary: s)
  case 0
  then show ?case by (subst initMap_loop.simps) simp
next
  case (Suc n)
  show ?case
  proof (cases "length (fst s) < MAPLENGTH")
    case True
    have eq: "(initMap_body rand ^^ Suc n) s = (initMap_body rand ^^ n) (initMap_body rand s)"
      by (simp add: funpow_swap1)
    have "length (fst (initMap_body rand s)) \<le> MAPLENGTH"
      using body_length[of rand s] True by simp
    from Suc.IH[OF Suc.prems(1)[unfolded eq] this] True show ?thesis
      by (subst initMap_loop.simps) (simp only: eq if_True)
  next
    case False
    with Suc.prems have len: "length (fst s) = MAPLENGTH" by simp
    from funpow_prefix[where rand = rand and n = "Suc n" and s = s] obtain zs
      where zs: "fst ((initMap_body rand ^^ Suc n) s) = fst s @ zs" ..
    with Suc.prems(1) len have "zs = []" by simp
    with zs have "fst ((initMap_body rand ^^ Suc n) s) = fst s" by simp
    then show ?thesis using False by (subst initMap_loop.simps) simp
  qed
qed

lemma initMap_funpow:
  assumes "length (fst ((initMap_body rand ^^ n) walk_start)) = MAPLENGTH"
  shows "initMap rand = Some (qsort (fst ((initMap_body rand ^^ n) walk_start)) tileCompare)"
proof -
  have "map_option fst (initMap_loop rand walk_start) = Some (fst ((initMap_body rand ^^ n) walk_start))"
    using assms by (intro initMap_loop_funpow) (simp_all add: walk_start_def)
  then show ?thesis by (auto simp: initMap_def walk_start_def)
qed

lemma coords_row_tile: "coords (row_tile x) = (x, 0)" by (simp add: coords_def row_tile_def)

lemma coords_west: "coords ` set (west_run n) = (\<lambda>j. (- int j, 0)) ` {0..<n}"
  by (auto simp: west_run_def coords_row_tile image_image)

lemma coords_east: "coords ` set (east_run n) = (\<lambda>j. (1000 - int j, 0)) ` {0..<n}"
  by (auto simp: east_run_def coords_row_tile image_image)

lemma length_west: "length (west_run n) = n" by (simp add: west_run_def)

lemma length_east: "length (east_run n) = n" by (simp add: east_run_def)

lemma west_0: "west_run 0 = []" by (simp add: west_run_def)

lemma east_0: "east_run 0 = []" by (simp add: east_run_def)

lemma west_Suc: "west_run (Suc n) = west_run n @ [row_tile (- int n)]"
  by (simp add: west_run_def)

lemma east_Suc: "east_run (Suc n) = east_run n @ [row_tile (1000 - int n)]"
  by (simp add: east_run_def)

lemma body_ones:
  "initMap_body rand_ones (tiles, x, 0, r2, i, k) =
     (push_tile tiles x 0, (if x - 1 < - 1000 then 1000 else if x - 1 > 1000 then 1000 else x - 1), 0,
      (if i mod 20 = 0 then 1 else r2), i + 1, (if i mod 20 = 0 then k + 2 else k + 1))"
  by (simp add: rand_ones_def Let_def walk_move_def walk_clamp_def MAPWIDTH_def MAPHEIGHT_def)

lemma west_phase:
  "n \<le> 1000 \<Longrightarrow> \<exists>r2 i k. (initMap_body rand_ones ^^ n) walk_start = (west_run n, - int n, 0, r2, i, k)"
proof (induction n)
  case 0
  then show ?case by (simp add: walk_start_def west_0)
next
  case (Suc n)
  then obtain r2 i k where st: "(initMap_body rand_ones ^^ n) walk_start = (west_run n, - int n, 0, r2, i, k)"
    by auto
  have notin: "(- int n, 0) \<notin> coords ` set (west_run n)" by (simp add: coords_west) auto
  have push: "push_tile (west_run n) (- int n) 0 = west_run (Suc n)"
    using notin by (simp add: push_tile_eq west_Suc row_tile_def)
  have "initMap_body rand_ones (west_run n, - int n, 0, r2, i, k)
     = (west_run (Suc n), - int (Suc n), 0,
          (if i mod 20 = 0 then 1 else r2), i + 1, (if i mod 20 = 0 then k + 2 else k + 1))"
    using Suc.prems by (subst body_ones) (simp add: push)
  then show ?case by (simp add: st)
qed

lemma east_phase:
  "m \<le> 999 \<Longrightarrow> \<exists>r2 i k. (initMap_body rand_ones ^^ (1001 + m)) walk_start
      = (west_run 1001 @ east_run m, 1000 - int m, 0, r2, i, k)"
proof (induction m)
  case 0
  from west_phase[of 1000] obtain r2 i k
    where st: "(initMap_body rand_ones ^^ 1000) walk_start = (west_run 1000, - int 1000, 0, r2, i, k)"
    by auto
  have notin: "(- 1000, 0) \<notin> coords ` set (west_run 1000)" by (simp add: coords_west) auto
  have push: "push_tile (west_run 1000) (- 1000) 0 = west_run 1001"
    using notin west_Suc[of 1000] by (simp add: push_tile_eq row_tile_def)
  have "initMap_body rand_ones (west_run 1000, - 1000, 0, r2, i, k)
     = (west_run 1001, 1000, 0,
          (if i mod 20 = 0 then 1 else r2), i + 1, (if i mod 20 = 0 then k + 2 else k + 1))"
    by (subst body_ones) (simp add: push)
  moreover have "(initMap_body rand_ones ^^ (1001 + 0)) walk_start
      = initMap_body rand_ones ((initMap_body rand_ones ^^ 1000) walk_start)"
    by (simp add: numeral_eq_Suc del: initMap_body.simps)
  ultimately show ?case by (simp add: st east_0 del: initMap_body.simps)
next
  case (Suc m)
  then obtain r2 i k where st: "(initMap_body rand_ones ^^ (1001 + m)) walk_start
      = (west_run 1001 @ east_run m, 1000 - int m, 0, r2, i, k)"
    by auto
  have m: "m < 999" using Suc.prems by simp
  have notin: "(1000 - int m, 0) \<notin> coords ` set (west_run 1001 @ east_run m)"
    using m by (simp add: image_Un coords_west coords_east) auto
  have push: "push_tile (west_run 1001 @ east_run m) (1000 - int m) 0 = west_run 1001 @ east_run (Suc m)"
    using notin by (simp add: push_tile_eq east_Suc row_tile_def)
  have "initMap_body rand_ones (west_run 1001 @ east_run m, 1000 - int m, 0, r2, i, k)
     = (west_run 1001 @ east_run (Suc m), 1000 - int (Suc m), 0,
          (if i mod 20 = 0 then 1 else r2), i + 1, (if i mod 20 = 0 then k + 2 else k + 1))"
    using m by (subst body_ones) (simp add: push)
  moreover have "(initMap_body rand_ones ^^ (1001 + Suc m)) walk_start
      = initMap_body rand_ones ((initMap_body rand_ones ^^ (1001 + m)) walk_start)"
    by (simp only: add_Suc_right funpow.simps o_apply)
  ultimately have "(initMap_body rand_ones ^^ (1001 + Suc m)) walk_start
     = (west_run 1001 @ east_run (Suc m), 1000 - int (Suc m), 0,
          (if i mod 20 = 0 then 1 else r2), i + 1, (if i mod 20 = 0 then k + 2 else k + 1))"
    by (simp only: st)
  then show ?case by blast
qed

lemma walk_rand_ones: "fst ((initMap_body rand_ones ^^ 2000) walk_start) = west_run 1001 @ east_run 999"
  using east_phase[of 999] by auto

lemma initMap_rand_ones: "initMap rand_ones = Some row_tiles"
  using initMap_funpow[where rand = rand_ones and n = 2000]
  by (simp add: walk_rand_ones length_west length_east MAPLENGTH_def row_tiles_def)

lemma borderCollide_key:
  assumes "initMap rand = Some tileArray"
  shows "borderCollide x y tileArray = 0 \<longleftrightarrow> (y * MAPWIDTH) + x \<in> flatCoord ` set tileArray"
  using borderCollide_iff(1)[OF initMap_props(3)[OF assms] initMap_props(1)[OF assms]] .

lemma borderCollide_tile:
  assumes "initMap rand = Some tileArray" "(x, y) \<in> coords ` set tileArray"
  shows "borderCollide x y tileArray = 0"
proof -
  from assms(2) obtain t where t: "t \<in> set tileArray" "tile_x t = x" "tile_y t = y"
    by (auto simp: coords_def)
  with initMap_props(4)[OF assms(1)] have "flatCoord t = (y * MAPWIDTH) + x" by auto
  with t(1) show ?thesis unfolding borderCollide_key[OF assms(1)] by (metis imageI)
qed

lemma borderCollide_far:
  assumes "initMap rand = Some tileArray"
  shows "borderCollide MAPWIDTH MAPHEIGHT tileArray = 1"
proof -
  have "(MAPHEIGHT * MAPWIDTH) + MAPWIDTH \<notin> flatCoord ` set tileArray"
  proof
    assume "(MAPHEIGHT * MAPWIDTH) + MAPWIDTH \<in> flatCoord ` set tileArray"
    then obtain t where t: "t \<in> set tileArray" "flatCoord t = (MAPHEIGHT * MAPWIDTH) + MAPWIDTH" by auto
    with initMap_props(4)[OF assms] have "(tile_y t * MAPWIDTH) + tile_x t = (MAPHEIGHT * MAPWIDTH) + MAPWIDTH"
      "\<bar>tile_x t\<bar> \<le> 1000" "\<bar>tile_y t\<bar> \<le> 1000" by auto
    then show False by (simp add: MAPWIDTH_def MAPHEIGHT_def)
  qed
  then show ?thesis
    using borderCollide_iff(2)[OF initMap_props(3)[OF assms] initMap_props(1)[OF assms]] by simp
qed

text \<open>
  Claim C1 fails on the code. Whatever the \<^verbatim>\<open>rand()\<close> results, the generated array holds
  the tile \<open>(0, 0)\<close> with key 0, and the search for \<open>(2000, -1)\<close> looks for the key
  \<open>-1 * 2000 + 2000 = 0\<close>: \<^verbatim>\<open>borderCollide\<close> answers 0 (a tile is there) for a
  coordinate that is not in the array.
\<close>

theorem borderCollide_alias:
  assumes "initMap rand = Some tileArray"
  shows "borderCollide 2000 (- 1) tileArray = 0 \<and> (2000, - 1) \<notin> coords ` set tileArray"
proof
  from initMap_props(5)[OF assms] obtain t where t: "t \<in> set tileArray" "tile_x t = 0" "tile_y t = 0"
    by (auto simp: coords_def)
  with initMap_props(4)[OF assms] have "flatCoord t = 0" by auto
  with t(1) have "(- 1 * MAPWIDTH) + 2000 \<in> flatCoord ` set tileArray"
    by (force simp add: MAPWIDTH_def)
  then show "borderCollide 2000 (- 1) tileArray = 0" unfolding borderCollide_key[OF assms] .
  show "(2000, - 1) \<notin> coords ` set tileArray"
  proof
    assume "(2000, - 1) \<in> coords ` set tileArray"
    then obtain t where "t \<in> set tileArray" "tile_x t = 2000" by (auto simp: coords_def)
    with initMap_props(4)[OF assms] show False by auto
  qed
qed

theorem borderCollide_alias_witness:
  "initMap rand_ones = Some row_tiles \<and>
   borderCollide 2000 (- 1) row_tiles = 0 \<and> (2000, - 1) \<notin> coords ` set row_tiles"
  using initMap_rand_ones borderCollide_alias[OF initMap_rand_ones] by simp

lemma borderCollide_alias_inside:
  "borderCollide (- 1000) 1 row_tiles = 0 \<and> (- 1000, 1) \<notin> coords ` set row_tiles"
proof
  have "row_tile (1000 - int 0) \<in> (\<lambda>j. row_tile (1000 - int j)) ` {0..<999}"
    by (rule imageI) simp
  then have "row_tile 1000 \<in> set (east_run 999)" by (simp only: east_run_def set_map set_upt) simp
  then have "row_tile 1000 \<in> set row_tiles" by (simp add: row_tiles_def set_qsort)
  then have "(1 * MAPWIDTH) + (- 1000) \<in> flatCoord ` set row_tiles"
    by (force simp add: MAPWIDTH_def row_tile_def)
  then show "borderCollide (- 1000) 1 row_tiles = 0"
    unfolding borderCollide_key[OF initMap_rand_ones] .
  show "(- 1000, 1) \<notin> coords ` set row_tiles"
    by (simp add: row_tiles_def set_qsort image_Un coords_west coords_east) auto
qed

lemma for_loop_total:
  assumes "I i s"
    and "\<And>j t. i \<le> j \<Longrightarrow> j < n \<Longrightarrow> I j t \<Longrightarrow> \<exists>t'. body j t = Some t' \<and> I (j + 1) t'"
    and "i \<le> n"
  shows "\<exists>s'. for_loop i n body s = Some s' \<and> I n s'"
  using assms
proof (induction "nat (n - i)" arbitrary: i s)
  case 0
  then have "i = n" by simp
  with "0.prems"(1) show ?case by (simp add: for_loop.simps)
next
  case (Suc d)
  then have lt: "i < n" by simp
  from Suc.prems(2)[OF order_refl lt Suc.prems(1)] obtain t'
    where t': "body i s = Some t'" "I (i + 1) t'" by blast
  have "\<exists>s'. for_loop (i + 1) n body t' = Some s' \<and> I n s'"
  proof (rule Suc.hyps(1))
    show "d = nat (n - (i + 1))" using Suc.hyps(2) by simp
    show "I (i + 1) t'" by fact
    show "\<And>j t. i + 1 \<le> j \<Longrightarrow> j < n \<Longrightarrow> I j t \<Longrightarrow> \<exists>t'. body j t = Some t' \<and> I (j + 1) t'"
      using Suc.prems(2) by simp
    show "i + 1 \<le> n" using lt by simp
  qed
  then show ?case using lt t' by (subst for_loop.simps) simp
qed

lemma for_loop_inv:
  assumes "for_loop i n body s = Some s'" "I s"
    and "\<And>j t t'. I t \<Longrightarrow> body j t = Some t' \<Longrightarrow> I t'"
  shows "I s'"
  using assms
proof (induction i n body s rule: for_loop.induct)
  case (1 i n body s)
  show ?case
  proof (cases "i < n")
    case True
    with "1.prems"(1) obtain t where t: "body i s = Some t" "for_loop (i + 1) n body t = Some s'"
      by (subst (asm) for_loop.simps) (auto split: option.splits)
    from "1.prems"(3)[OF "1.prems"(2) t(1)] have "I t" .
    from "1.IH"[OF True t(1) t(2) this "1.prems"(3)] show ?thesis .
  next
    case False
    with "1.prems" show ?thesis by (subst (asm) for_loop.simps) simp
  qed
qed

lemma store_blocks:
  assumes "store m p i v = Some m'"
  shows "\<exists>xs. blocks m p = Some xs \<and> 0 \<le> i \<and> i < int (length xs)
          \<and> m' = m\<lparr>blocks := (blocks m)(p \<mapsto> xs[nat i := v])\<rparr>"
  using assms by (auto simp: store_def split: option.splits if_splits)

lemma store_frame:
  assumes "store m p i v = Some m'" "q \<noteq> p"
  shows "blocks m' q = blocks m q"
  using store_blocks[OF assms(1)] assms(2) by auto

lemma pixel_frame:
  assumes "drawBackground_pixel st minX minY y x m = Some m'" "q \<noteq> buffer (display st)"
  shows "blocks m' q = blocks m q"
  using assms
  by (auto simp: drawBackground_pixel_def Let_def split: option.splits dest: store_frame)

lemma memcpy_frame:
  assumes "memcpy dst src n m = Some m'" "q \<noteq> dst"
  shows "blocks m' q = blocks m q"
  using assms by (auto simp: memcpy_def split: option.splits if_splits)

lemma drawBackground_frame:
  assumes "drawBackground st = Some st'"
  shows "cam st' = cam st \<and> bgBufferOld st' = bgBufferOld st \<and> bgBufferNew st' = bgBufferNew st
       \<and> display st' = display st
       \<and> (\<forall>q. q \<noteq> buffer (display st) \<longrightarrow> blocks (mem st') q = blocks (mem st) q)"
proof (cases "tileX (cam st) \<noteq> destTileX (cam st) \<or> tileY (cam st) \<noteq> destTileY (cam st)")
  case True
  define minX where "minX = f2i (pixelX (cam st))"
  define minY where "minY = f2i (pixelY (cam st))"
  from assms True obtain m' where
    loop: "for_loop minY (minY + DISPLAY_PH)
             (\<lambda>y. for_loop minX (minX + DISPLAY_PW) (drawBackground_pixel st minX minY y)) (mem st) = Some m'"
    and st': "st' = st\<lparr>mem := m'\<rparr>"
    by (auto simp: drawBackground_def Let_def minX_def minY_def)
  let ?I = "\<lambda>m. \<forall>q. q \<noteq> buffer (display st) \<longrightarrow> blocks m q = blocks (mem st) q"
  have "?I m'"
  proof (rule for_loop_inv[OF loop, where I = ?I])
    show "?I (mem st)" by simp
    fix y t t' assume t: "?I t"
      and row: "for_loop minX (minX + DISPLAY_PW) (drawBackground_pixel st minX minY y) t = Some t'"
    show "?I t'"
    proof (rule for_loop_inv[OF row, where I = ?I])
      show "?I t" by fact
      fix x u u' assume "?I u" "drawBackground_pixel st minX minY y x u = Some u'"
      then show "?I u'" using pixel_frame by metis
    qed
  qed
  then show ?thesis by (simp add: st')
next
  case False
  with assms obtain m' where
    cp: "memcpy (buffer (display st)) (data (bgBufferNew st)) (nat (DISPLAY_PW * DISPLAY_PH)) (mem st) = Some m'"
    and st': "st' = st\<lparr>mem := m'\<rparr>"
    by (auto simp: drawBackground_def Let_def)
  from memcpy_frame[OF cp] show ?thesis by (simp add: st')
qed

lemma divmod_960:
  fixes y c :: int
  assumes "0 \<le> c" "c < 960"
  shows "((y * 960) + c) div 960 = y" "((y * 960) + c) mod 960 = c"
  using assms by simp_all

lemma scroll_step:
  assumes inv: "scroll_inv st old new minX (nat ((y * 960) + (x - minX))) m"
    and len: "length old = 518400" "length new = 518400"
    and sep: "buffer (display st) \<noteq> data (bgBufferOld st)" "buffer (display st) \<noteq> data (bgBufferNew st)"
    and minX: "- 720 \<le> minX" "minX \<le> 0"
    and y: "0 \<le> y" "y < 540" and x: "minX \<le> x" "x < minX + 960"
  shows "\<exists>m'. drawBackground_pixel st minX 0 y x m = Some m'
           \<and> scroll_inv st old new minX (nat ((y * 960) + (x + 1 - minX))) m'"
proof -
  from inv obtain dc where
    o: "blocks m (data (bgBufferOld st)) = Some old" and n: "blocks m (data (bgBufferNew st)) = Some new"
    and d: "blocks m (buffer (display st)) = Some dc" "length dc = 518400"
    and px: "\<forall>k < nat ((y * 960) + (x - minX)). dc ! k = scroll_pixel old new minX k"
    by (auto simp: scroll_inv_def)
  define t where "t = nat ((y * 960) + (x - minX))"
  have c: "0 \<le> x - minX" "x - minX < 960" using x by simp_all
  have t: "int t = (y * 960) + (x - minX)" using y c by (simp add: t_def)
  have tlt: "t < 518400" using y c by (simp add: t_def)
  have tm: "int t mod 960 = x - minX" "int t div 960 = y"
    unfolding t using divmod_960[OF c] by simp_all
  define v where "v = scroll_pixel old new minX t"
  have ld: "(let src_new = (if x < 0 then (data (bgBufferNew st), x + SCROLL_PW, y)
                     else if x \<ge> DISPLAY_PW then (data (bgBufferNew st), x - SCROLL_PW, y)
                     else if y < 0 then (data (bgBufferNew st), x, y + SCROLL_PH)
                     else if y \<ge> DISPLAY_PH then (data (bgBufferNew st), x, y - SCROLL_PH)
                     else (data (bgBufferOld st), x, y))
             in load m (fst src_new) ((snd (snd src_new) * DISPLAY_PW) + fst (snd src_new))) = Some v"
  proof (cases "x < 0")
    case True
    have "0 \<le> (y * 960) + (x + 720)" "(y * 960) + (x + 720) < 518400" using True x minX y by simp_all
    then show ?thesis using True n len
      by (simp add: load_def v_def scroll_pixel_def tm Let_def SCROLL_PW_def SCROLL_TW_def
          DISPLAY_TW_def DISPLAY_PW_def TILESIZE_def add.assoc)
  next
    case False
    have "0 \<le> (y * 960) + x" "(y * 960) + x < 518400" "x < 960" using False x minX y by simp_all
    then show ?thesis using False o len y
      by (simp add: load_def v_def scroll_pixel_def tm Let_def DISPLAY_PW_def DISPLAY_PH_def)
  qed
  define m' where "m' = m\<lparr>blocks := (blocks m)(buffer (display st) \<mapsto> dc[t := v])\<rparr>"
  have idx: "0 \<le> (y * 960) + (x - minX)" "(y * 960) + (x - minX) < 518400"
    using y c by simp_all
  have st: "store m (buffer (display st)) (((y - 0) * DISPLAY_PW) + (x - minX)) v = Some m'"
    using d idx by (simp add: store_def m'_def DISPLAY_PW_def t_def)
  have body: "drawBackground_pixel st minX 0 y x m = Some m'"
    using ld st unfolding drawBackground_pixel_def Let_def by simp
  have "nat ((y * 960) + (x + 1 - minX)) = Suc t" using y c by (simp add: t_def)
  moreover have "scroll_inv st old new minX (Suc t) m'"
    unfolding scroll_inv_def
  proof (intro conjI exI[of _ "dc[t := v]"] allI impI)
    show "blocks m' (data (bgBufferOld st)) = Some old" using o sep by (simp add: m'_def)
    show "blocks m' (data (bgBufferNew st)) = Some new" using n sep by (simp add: m'_def)
    show "blocks m' (buffer (display st)) = Some (dc[t := v])" by (simp add: m'_def)
    show "length (dc[t := v]) = 518400" using d by simp
    fix k assume "k < Suc t"
    then show "dc[t := v] ! k = scroll_pixel old new minX k"
      using px d tlt by (cases "k = t") (simp_all add: v_def t_def)
  qed
  ultimately show ?thesis using body by simp
qed

lemma scroll_row:
  assumes inv: "scroll_inv st old new minX (nat (y * 960)) m"
    and len: "length old = 518400" "length new = 518400"
    and sep: "buffer (display st) \<noteq> data (bgBufferOld st)" "buffer (display st) \<noteq> data (bgBufferNew st)"
    and minX: "- 720 \<le> minX" "minX \<le> 0"
    and y: "0 \<le> y" "y < 540"
  shows "\<exists>m'. for_loop minX (minX + DISPLAY_PW) (drawBackground_pixel st minX 0 y) m = Some m'
           \<and> scroll_inv st old new minX (nat ((y + 1) * 960)) m'"
proof -
  let ?I = "\<lambda>x m. scroll_inv st old new minX (nat ((y * 960) + (x - minX))) m"
  have "\<exists>m'. for_loop minX (minX + DISPLAY_PW) (drawBackground_pixel st minX 0 y) m = Some m'
           \<and> ?I (minX + DISPLAY_PW) m'"
  proof (rule for_loop_total[where I = ?I])
    show "?I minX m" using inv by simp
    show "minX \<le> minX + DISPLAY_PW" by (simp add: DISPLAY_PW_def)
    fix x t assume "minX \<le> x" "x < minX + DISPLAY_PW" "?I x t"
    then show "\<exists>t'. drawBackground_pixel st minX 0 y x t = Some t' \<and> ?I (x + 1) t'"
      using scroll_step[OF _ len sep minX y, of x t] by (simp add: DISPLAY_PW_def)
  qed
  then obtain m' where r: "for_loop minX (minX + DISPLAY_PW) (drawBackground_pixel st minX 0 y) m = Some m'"
    and i: "scroll_inv st old new minX (nat ((y * 960) + (minX + DISPLAY_PW - minX))) m'" by blast
  have "(y * 960) + (minX + DISPLAY_PW - minX) = (y + 1) * 960"
    by (simp add: DISPLAY_PW_def algebra_simps)
  with i have "scroll_inv st old new minX (nat ((y + 1) * 960)) m'" by (simp only:)
  with r show ?thesis by blast
qed

lemma scroll_frame:
  assumes mid: "tileX (cam st) \<noteq> destTileX (cam st) \<or> tileY (cam st) \<noteq> destTileY (cam st)"
    and px: "f2i (pixelX (cam st)) = minX" "- 720 \<le> minX" "minX \<le> 0" "f2i (pixelY (cam st)) = 0"
    and o: "blocks (mem st) (data (bgBufferOld st)) = Some old" "length old = 518400"
    and n: "blocks (mem st) (data (bgBufferNew st)) = Some new" "length new = 518400"
    and d: "blocks (mem st) (buffer (display st)) = Some dc" "length dc = 518400"
    and sep: "buffer (display st) \<noteq> data (bgBufferOld st)" "buffer (display st) \<noteq> data (bgBufferNew st)"
  shows "\<exists>st' dc'. drawBackground st = Some st' \<and> blocks (mem st') (buffer (display st)) = Some dc'
           \<and> length dc' = 518400 \<and> (\<forall>k < 518400. dc' ! k = scroll_pixel old new minX k)"
proof -
  let ?I = "\<lambda>y m. scroll_inv st old new minX (nat (y * 960)) m"
  have "\<exists>m'. for_loop 0 (0 + DISPLAY_PH)
           (\<lambda>y. for_loop minX (minX + DISPLAY_PW) (drawBackground_pixel st minX 0 y)) (mem st) = Some m'
           \<and> ?I (0 + DISPLAY_PH) m'"
  proof (rule for_loop_total[where I = ?I])
    show "?I 0 (mem st)" using o n d by (simp add: scroll_inv_def)
    show "(0::int) \<le> 0 + DISPLAY_PH" by (simp add: DISPLAY_PH_def)
    fix y t assume "0 \<le> y" "y < 0 + DISPLAY_PH" "?I y t"
    then show "\<exists>t'. for_loop minX (minX + DISPLAY_PW) (drawBackground_pixel st minX 0 y) t = Some t' \<and> ?I (y + 1) t'"
      using scroll_row[OF _ o(2) n(2) sep px(2,3), of y t] by (simp add: DISPLAY_PH_def)
  qed
  then obtain m' where
    loop: "for_loop 0 (0 + DISPLAY_PH)
           (\<lambda>y. for_loop minX (minX + DISPLAY_PW) (drawBackground_pixel st minX 0 y)) (mem st) = Some m'"
    and fin: "scroll_inv st old new minX (nat ((0 + DISPLAY_PH) * 960)) m'" by blast
  have "drawBackground st = Some (st\<lparr>mem := m'\<rparr>)"
    using mid loop by (simp add: drawBackground_def Let_def px)
  moreover from fin obtain dc' where "blocks m' (buffer (display st)) = Some dc'" "length dc' = 518400"
    "\<forall>k < 518400. dc' ! k = scroll_pixel old new minX k"
    by (auto simp: scroll_inv_def DISPLAY_PH_def)
  ultimately show ?thesis by auto
qed

text \<open>
  Claim C8. The camera is in the middle of a scroll, its pixel offset is \<open>minX\<close> to the
  left (between \<open>-SCROLL_PW\<close> and -1, for example \<open>-SCROLL_PW / 2 = -360\<close>) and 0
  vertically. Then \<^verbatim>\<open>drawBackground\<close> returns, and in every row \<open>y\<close> the pixel of the frame
  buffer for \<open>x = -1\<close>, stored at \<open>(y - minY) * DISPLAY_PW + (x - minX)\<close>, is the pixel
  of the new buffer at \<open>x = -1 + SCROLL_PW\<close> of that row.
\<close>

theorem drawBackground_left_edge:
  assumes "tileX (cam st) \<noteq> destTileX (cam st) \<or> tileY (cam st) \<noteq> destTileY (cam st)"
    and "f2i (pixelX (cam st)) = minX" "- SCROLL_PW \<le> minX" "minX \<le> - 1"
    and "f2i (pixelY (cam st)) = 0"
    and "blocks (mem st) (data (bgBufferOld st)) = Some old" "length old = 518400"
    and "blocks (mem st) (data (bgBufferNew st)) = Some new" "length new = 518400"
    and "blocks (mem st) (buffer (display st)) = Some dc" "length dc = 518400"
    and "buffer (display st) \<noteq> data (bgBufferOld st)" "buffer (display st) \<noteq> data (bgBufferNew st)"
    and "0 \<le> y" "y < DISPLAY_PH"
  shows "\<exists>st' dc'. drawBackground st = Some st'
           \<and> blocks (mem st') (buffer (display st)) = Some dc'
           \<and> dc' ! nat (((y - 0) * DISPLAY_PW) + (- 1 - minX))
               = new ! nat ((y * DISPLAY_PW) + (- 1 + SCROLL_PW))"
proof -
  have spw: "SCROLL_PW = 720"
    by (simp add: SCROLL_PW_def SCROLL_TW_def DISPLAY_TW_def DISPLAY_PW_def TILESIZE_def)
  have m: "- 720 \<le> minX" "minX \<le> 0" using assms(3,4) by (simp_all add: spw)
  from scroll_frame[OF assms(1,2) m assms(5-13)] obtain st' dc' where
    r: "drawBackground st = Some st'" "blocks (mem st') (buffer (display st)) = Some dc'"
    and p: "\<forall>k < 518400. dc' ! k = scroll_pixel old new minX k" by blast
  define k where "k = nat ((y * 960) + (- 1 - minX))"
  have c: "0 \<le> - 1 - minX" "- 1 - minX < 960" using m assms(4) by simp_all
  have y: "0 \<le> y" "y < 540" using assms(14,15) by (simp_all add: DISPLAY_PH_def)
  have ik: "int k = (y * 960) + (- 1 - minX)" using y c by (simp add: k_def)
  have "k < 518400" using y c by (simp add: k_def)
  with p have "dc' ! k = scroll_pixel old new minX k" by simp
  also have "\<dots> = new ! nat ((y * 960) + 719)"
    unfolding scroll_pixel_def ik using divmod_960[OF c, of y] by (simp add: Let_def add.commute)
  finally show ?thesis using r by (auto simp: k_def DISPLAY_PW_def spw)
qed

lemma scene_facts:
  "blocks scene_memory 2 = Some (replicate 518400 0x4f4f9fff)"
  "blocks scene_memory 3 = Some (replicate 518400 0xeb9b34ff)"
  "blocks scene_memory 4 = Some (replicate 518400 0)"
  by (simp_all add: scene_memory_def)

theorem drawBackground_left_edge_witness:
  "tileX (cam scroll_scene) \<noteq> destTileX (cam scroll_scene)
   \<and> f2i (pixelX (cam scroll_scene)) = - 360 \<and> - SCROLL_PW \<le> - 360 \<and> f2i (pixelY (cam scroll_scene)) = 0
   \<and> blocks (mem scroll_scene) (data (bgBufferOld scroll_scene)) = Some (replicate 518400 0x4f4f9fff)
   \<and> blocks (mem scroll_scene) (data (bgBufferNew scroll_scene)) = Some (replicate 518400 0xeb9b34ff)
   \<and> blocks (mem scroll_scene) (buffer (display scroll_scene)) = Some (replicate 518400 0)
   \<and> (\<exists>st' dc'. drawBackground scroll_scene = Some st'
           \<and> blocks (mem st') (buffer (display scroll_scene)) = Some dc'
           \<and> dc' ! nat (((100 - 0) * DISPLAY_PW) + (- 1 - (- 360)))
               = replicate 518400 0xeb9b34ff ! nat ((100 * DISPLAY_PW) + (- 1 + SCROLL_PW)))"
proof -
  have spw: "SCROLL_PW = 720"
    by (simp add: SCROLL_PW_def SCROLL_TW_def DISPLAY_TW_def DISPLAY_PW_def TILESIZE_def)
  have h1: "tileX (cam scroll_scene) \<noteq> destTileX (cam scroll_scene) \<or> tileY (cam scroll_scene) \<noteq> destTileY (cam scroll_scene)"
    by (simp add: scroll_scene_def)
  have h2: "f2i (pixelX (cam scroll_scene)) = - 360" by (simp add: scroll_scene_def f2i_def)
  have h3: "- SCROLL_PW \<le> - 360" "(- 360 :: int) \<le> - 1" by (simp_all add: spw)
  have h4: "f2i (pixelY (cam scroll_scene)) = 0" by (simp add: scroll_scene_def f2i_def)
  have h5: "blocks (mem scroll_scene) (data (bgBufferOld scroll_scene)) = Some (replicate 518400 0x4f4f9fff)"
    "length (replicate 518400 (0x4f4f9fff :: u32)) = 518400"
    by (simp_all add: scroll_scene_def scene_facts)
  have h6: "blocks (mem scroll_scene) (data (bgBufferNew scroll_scene)) = Some (replicate 518400 0xeb9b34ff)"
    "length (replicate 518400 (0xeb9b34ff :: u32)) = 518400"
    by (simp_all add: scroll_scene_def scene_facts)
  have h7: "blocks (mem scroll_scene) (buffer (display scroll_scene)) = Some (replicate 518400 0)"
    "length (replicate 518400 (0 :: u32)) = 518400"
    by (simp_all add: scroll_scene_def scene_facts)
  have h8: "buffer (display scroll_scene) \<noteq> data (bgBufferOld scroll_scene)"
    "buffer (display scroll_scene) \<noteq> data (bgBufferNew scroll_scene)"
    by (simp_all add: scroll_scene_def)
  have h9: "(0::int) \<le> 100" "100 < DISPLAY_PH" by (simp_all add: DISPLAY_PH_def)
  have h0: "tileX (cam scroll_scene) \<noteq> destTileX (cam scroll_scene)"
    by (simp add: scroll_scene_def)
  from drawBackground_left_edge[OF h1 h2 h3 h4 h5 h6 h7 h8 h9] h0 h2 h3 h4 h5 h6 h7
  show ?thesis by blast
qed

text \<open>
  Claim C10. The display buffer is a block of its own, as \<^verbatim>\<open>main\<close> allocates it. Whenever
  \<^verbatim>\<open>drawBackground\<close> returns, in the middle of a scroll or not, the two scroll view buffers
  are as before: their \<^verbatim>\<open>Bitmap\<close> structures (pointer, width, height) and their pixels.
\<close>

theorem drawBackground_keeps_views:
  assumes "drawBackground st = Some st'"
    and "buffer (display st) \<noteq> data (bgBufferOld st)" "buffer (display st) \<noteq> data (bgBufferNew st)"
  shows "bgBufferOld st' = bgBufferOld st \<and> bgBufferNew st' = bgBufferNew st
       \<and> blocks (mem st') (data (bgBufferOld st')) = blocks (mem st) (data (bgBufferOld st))
       \<and> blocks (mem st') (data (bgBufferNew st')) = blocks (mem st) (data (bgBufferNew st))"
  using drawBackground_frame[OF assms(1)] assms(2,3) by (metis (no_types))

lemma drawBackground_still: "drawBackground still_scene = Some still_drawn"
  by (simp add: drawBackground_def still_scene_def still_drawn_def Let_def memcpy_def scene_facts
      DISPLAY_PW_def DISPLAY_PH_def f2i_def)

theorem drawBackground_keeps_views_witness:
  "drawBackground still_scene = Some still_drawn
   \<and> buffer (display still_scene) \<noteq> data (bgBufferOld still_scene)
   \<and> buffer (display still_scene) \<noteq> data (bgBufferNew still_scene)
   \<and> bgBufferOld still_drawn = bgBufferOld still_scene \<and> bgBufferNew still_drawn = bgBufferNew still_scene
   \<and> blocks (mem still_drawn) (data (bgBufferOld still_drawn)) = blocks (mem still_scene) (data (bgBufferOld still_scene))
   \<and> blocks (mem still_drawn) (data (bgBufferNew still_drawn)) = blocks (mem still_scene) (data (bgBufferNew still_scene))"
proof -
  have h: "buffer (display still_scene) \<noteq> data (bgBufferOld still_scene)"
    "buffer (display still_scene) \<noteq> data (bgBufferNew still_scene)"
    by (simp_all add: still_scene_def)
  from drawBackground_keeps_views[OF drawBackground_still h] drawBackground_still h
  show ?thesis by blast
qed

lemma fill_loops:
  assumes w: "0 < w" "0 \<le> h"
    and init: "filled P dst (nat (w * h)) g 0 m"
    and step: "\<And>y x t. 0 \<le> y \<Longrightarrow> y < h \<Longrightarrow> 0 \<le> x \<Longrightarrow> x < w
        \<Longrightarrow> filled P dst (nat (w * h)) g (nat ((y * w) + x)) t
        \<Longrightarrow> \<exists>t'. body y x t = Some t' \<and> filled P dst (nat (w * h)) g (Suc (nat ((y * w) + x))) t'"
  shows "\<exists>m'. for_loop 0 h (\<lambda>y. for_loop 0 w (body y)) m = Some m'
           \<and> filled P dst (nat (w * h)) g (nat (w * h)) m'"
proof -
  let ?N = "nat (w * h)"
  let ?I = "\<lambda>y m. filled P dst ?N g (nat (y * w)) m"
  have "\<exists>m'. for_loop 0 h (\<lambda>y. for_loop 0 w (body y)) m = Some m' \<and> ?I h m'"
  proof (rule for_loop_total[where I = ?I])
    show "?I 0 m" using init by simp
    show "0 \<le> h" by fact
    fix y t assume y: "0 \<le> y" "y < h" and I: "?I y t"
    let ?R = "\<lambda>x m. filled P dst ?N g (nat ((y * w) + x)) m"
    have "\<exists>t'. for_loop 0 w (body y) t = Some t' \<and> ?R w t'"
    proof (rule for_loop_total[where I = ?R])
      show "?R 0 t" using I by simp
      show "0 \<le> w" using w by simp
      fix x u assume x: "0 \<le> x" "x < w" and R: "?R x u"
      from step[OF y x R] obtain u' where
        u': "body y x u = Some u'" "filled P dst ?N g (Suc (nat ((y * w) + x))) u'" by blast
      have "0 \<le> y * w" using y w by simp
      then have "Suc (nat ((y * w) + x)) = nat ((y * w) + (x + 1))" using x by simp
      with u' show "\<exists>t'. body y x u = Some t' \<and> ?R (x + 1) t'" by simp
    qed
    moreover have "(y * w) + w = (y + 1) * w" by (simp add: algebra_simps)
    ultimately show "\<exists>t'. for_loop 0 w (body y) t = Some t' \<and> ?I (y + 1) t'" by simp
  qed
  then show ?thesis by (simp add: mult.commute)
qed

lemma divmod_row:
  fixes y x w :: int
  assumes "0 \<le> x" "x < w"
  shows "((y * w) + x) div w = y" "((y * w) + x) mod w = x"
  using assms by simp_all

lemma idx_bound:
  fixes x y w h :: int
  assumes "0 \<le> y" "y < h" "0 \<le> x" "x < w"
  shows "0 \<le> (y * w) + x" "(y * w) + x < w * h"
proof -
  show "0 \<le> (y * w) + x" using assms by simp
  have "(y + 1) * w \<le> h * w" using assms by (intro mult_right_mono) simp_all
  then show "(y * w) + x < w * h" using assms by (simp add: algebra_simps)
qed

lemma filled_store:
  assumes f: "filled P dst N g t m" and t: "t < N"
    and P: "\<And>dc. P (m\<lparr>blocks := (blocks m)(dst \<mapsto> dc)\<rparr>)"
  shows "\<exists>m'. store m dst (int t) (g t) = Some m' \<and> filled P dst N g (Suc t) m'"
proof -
  from f obtain dc where dc: "blocks m dst = Some dc" "length dc = N"
    "\<forall>k < t. dc ! k = g k" "\<forall>k. t \<le> k \<and> k < N \<longrightarrow> dc ! k = 0"
    by (auto simp: filled_def)
  define m' where "m' = m\<lparr>blocks := (blocks m)(dst \<mapsto> dc[t := g t])\<rparr>"
  have "store m dst (int t) (g t) = Some m'" using dc t by (simp add: store_def m'_def)
  moreover have "filled P dst N g (Suc t) m'"
    unfolding filled_def
  proof (intro conjI exI[of _ "dc[t := g t]"] allI impI)
    show "P m'" unfolding m'_def by (rule P)
    show "blocks m' dst = Some (dc[t := g t])" by (simp add: m'_def)
    show "length (dc[t := g t]) = N" using dc by simp
    fix k assume "k < Suc t"
    then show "dc[t := g t] ! k = g k" using dc t by (cases "k = t") simp_all
  next
    fix k assume "Suc t \<le> k \<and> k < N"
    then show "dc[t := g t] ! k = 0" using dc by simp
  qed
  ultimately show ?thesis by blast
qed

lemma filled_skip:
  assumes "filled P dst N g t m" "t < N" "g t = 0"
  shows "filled P dst N g (Suc t) m"
  using assms unfolding filled_def
  by (metis less_Suc_eq Suc_leD order_refl)

lemma filled_load:
  assumes "filled P dst N g t m" "t < N"
  shows "load m dst (int t) = Some 0"
  using assms by (auto simp: filled_def load_def)

lemma filled_done:
  assumes "filled P dst N g N m"
  shows "P m \<and> blocks m dst = Some (map g [0..<N])"
proof -
  from assms obtain dc where dc: "blocks m dst = Some dc" "length dc = N" "\<forall>k < N. dc ! k = g k"
    and P: "P m" by (auto simp: filled_def)
  have "dc = map g [0..<N]" using dc by (intro nth_equalityI) simp_all
  with dc P show ?thesis by simp
qed

lemma filled_init:
  assumes "P (snd (calloc N m))"
  shows "filled P (fst (calloc N m)) N g 0 (snd (calloc N m))"
  using assms by (simp add: filled_def calloc_def)

lemma f2i_of_int: "0 \<le> n \<Longrightarrow> f2i (of_int n) = n"
  by (simp add: f2i_def)

lemma fmul_1: "\<bar>n\<bar> \<le> 2 ^ 24 \<Longrightarrow> fmul (i2f n) 1 = of_int n"
  by (simp add: fmul_def i2f_small f32_of_int)

lemma scaleBitmap_row_eq:
  "scaleBitmap_row b sb wRatio hRatio =
     (\<lambda>y. for_loop 0 (width sb) (scaleBitmap_pixel b sb wRatio (f2i (fmul (i2f y) hRatio) * width b) y))"
  by (intro ext) (simp add: scaleBitmap_row_def Let_def)

lemma scaleBitmap_identity:
  assumes pos: "0 < width b" "0 < height b" and small: "width b * height b \<le> 2 ^ 24"
    and px: "blocks m (data b) = Some px" "length px = nat (width b * height b)"
    and wf: "data b < brk m"
  shows "\<exists>m'. scaleBitmap b 1 m = Some (\<lparr>data = brk m, width = width b, height = height b\<rparr>, m')
          \<and> blocks m' (brk m) = Some px \<and> blocks m' (data b) = Some px \<and> brk m \<noteq> data b"
proof -
  define w where "w = width b"
  define h where "h = height b"
  define N where "N = nat (w * h)"
  have wh: "0 < w" "0 < h" "w * h \<le> 2 ^ 24" using pos small by (simp_all add: w_def h_def)
  have "w * 1 \<le> w * h" using wh by (intro mult_left_mono) simp_all
  then have "w \<le> w * h" by (simp only: mult_1_right)
  then have w24: "w \<le> 2 ^ 24" using wh(3) by (rule order_trans)
  have "1 * h \<le> w * h" using wh by (intro mult_right_mono) simp_all
  then have "h \<le> w * h" by (simp only: mult_1_left)
  then have h24: "h \<le> 2 ^ 24" using wh(3) by (rule order_trans)
  have fresh: "brk m \<noteq> data b" using wf by simp
  have ws: "fmul (i2f w) 1 = of_int w" and hs: "fmul (i2f h) 1 = of_int h"
    using wh w24 h24 by (simp_all add: fmul_1)
  have iw: "i2f w = of_int w" and ih: "i2f h = of_int h" using wh w24 h24 by (simp_all add: i2f_small)
  have wr: "fdiv (i2f w) (of_int w) = 1" and hr: "fdiv (i2f h) (of_int h) = 1"
    using wh f32_of_int[of 1] by (simp_all add: fdiv_def iw ih)
  have sz: "nat (f2i (fmul (of_int w) (of_int h))) = N"
  proof -
    have "fmul (of_int w) (of_int h) = f32 (of_int (w * h))" by (simp add: fmul_def)
    also have "\<dots> = of_int (w * h)" using wh by (intro f32_of_int) simp
    finally have "f2i (fmul (of_int w) (of_int h)) = f2i (of_int (w * h))" by (simp only:)
    also have "\<dots> = w * h" using wh by (intro f2i_of_int) simp
    finally show ?thesis by (simp only: N_def)
  qed
  define sb where "sb = \<lparr>data = brk m, width = w, height = h\<rparr>"
  define m1 where "m1 = snd (calloc N m)"
  have c: "calloc N m = (brk m, m1)" by (simp add: m1_def calloc_def)
  let ?P = "\<lambda>m. blocks m (data b) = Some px"
  let ?g = "\<lambda>k. px ! k"
  have run: "scaleBitmap b 1 m = map_option (Pair sb) (for_loop 0 h
      (\<lambda>y. for_loop 0 w (scaleBitmap_pixel b sb 1 (f2i (fmul (i2f y) 1) * w) y)) m1)"
    unfolding scaleBitmap_def Let_def w_def[symmetric] h_def[symmetric]
    by (simp add: ws hs wr hr sz c f2i_of_int wh less_imp_le sb_def scaleBitmap_row_eq
        w_def[symmetric] h_def[symmetric])
  have "\<exists>m'. for_loop 0 h (\<lambda>y. for_loop 0 w (scaleBitmap_pixel b sb 1 (f2i (fmul (i2f y) 1) * w) y)) m1 = Some m'
           \<and> filled ?P (brk m) (nat (w * h)) ?g (nat (w * h)) m'"
  proof (rule fill_loops)
    show "0 < w" "0 \<le> h" using wh by simp_all
    have "filled ?P (fst (calloc N m)) N ?g 0 (snd (calloc N m))"
      by (rule filled_init) (simp add: calloc_def px fresh[symmetric])
    then show "filled ?P (brk m) (nat (w * h)) ?g 0 m1" using c by (simp add: N_def)
    fix y x t assume y: "0 \<le> y" "y < h" and x: "0 \<le> x" "x < w"
      and f: "filled ?P (brk m) (nat (w * h)) ?g (nat ((y * w) + x)) t"
    note ib = idx_bound[OF y x]
    have yy: "f2i (fmul (i2f y) 1) = y" using y h24 by (simp add: fmul_1 f2i_of_int)
    have xx: "f2i (fmul (i2f x) 1) = x" using x w24 by (simp add: fmul_1 f2i_of_int)
    have tN: "nat ((y * w) + x) < nat (w * h)" using ib by simp
    have P: "?P t" using f by (simp add: filled_def)
    have ld: "load t (data b) ((y * w) + x) = Some (px ! nat ((y * w) + x))"
      using P ib px(2) by (simp add: load_def w_def h_def)
    from filled_store[OF f tN] P fresh obtain t' where
      "store t (brk m) (int (nat ((y * w) + x))) (px ! nat ((y * w) + x)) = Some t'"
      "filled ?P (brk m) (nat (w * h)) ?g (Suc (nat ((y * w) + x))) t'" by auto
    then show "\<exists>t'. scaleBitmap_pixel b sb 1 (f2i (fmul (i2f y) 1) * w) y x t = Some t'
        \<and> filled ?P (brk m) (nat (w * h)) ?g (Suc (nat ((y * w) + x))) t'"
      using ib by (simp add: scaleBitmap_pixel_def yy xx ld sb_def)
  qed
  then obtain m' where m': "for_loop 0 h (\<lambda>y. for_loop 0 w (scaleBitmap_pixel b sb 1 (f2i (fmul (i2f y) 1) * w) y)) m1 = Some m'"
    and fin: "filled ?P (brk m) N ?g N m'" by (auto simp: N_def)
  from filled_done[OF fin] have "blocks m' (data b) = Some px" "blocks m' (brk m) = Some (map ?g [0..<N])"
    by simp_all
  moreover have "map ?g [0..<N] = px"
    using map_nth[of px] px(2) by (simp add: N_def w_def h_def)
  ultimately show ?thesis using run m' fresh by (simp add: sb_def w_def h_def)
qed

text \<open>
  Claim C9, amended. For every bitmap with positive width and height and at most
  \<open>2 ^ 24\<close> pixels (its \<open>width * height\<close> pixels in an allocated block), \<^verbatim>\<open>scaleBitmap\<close> with
  factor 1.0 returns a new bitmap with the same width and height whose pixel array is
  identical to the input's, which is left as it was. The new dimensions are the
  single-precision products \<^verbatim>\<open>(float)w * scale\<close> and \<^verbatim>\<open>(float)h * scale\<close> converted to
  \<^verbatim>\<open>int\<close>, and for these bitmaps they are \<open>floor (width * factor)\<close> and
  \<open>floor (height * factor)\<close>.
\<close>

theorem scaleBitmap_one:
  assumes "0 < width b" "0 < height b" "width b * height b \<le> 2 ^ 24"
    and "blocks m (data b) = Some px" "length px = nat (width b * height b)"
    and "data b < brk m"
  shows "\<exists>b' m'. scaleBitmap b 1 m = Some (b', m')
           \<and> width b' = width b \<and> height b' = height b
           \<and> width b' = f2i (fmul (i2f (width b)) 1) \<and> height b' = f2i (fmul (i2f (height b)) 1)
           \<and> width b' = \<lfloor>(of_int (width b) :: rat) * 1\<rfloor> \<and> height b' = \<lfloor>(of_int (height b) :: rat) * 1\<rfloor>
           \<and> data b' \<noteq> data b \<and> blocks m' (data b') = Some px \<and> blocks m' (data b) = Some px"
proof -
  from scaleBitmap_identity[OF assms] obtain m' where
    r: "scaleBitmap b 1 m = Some (\<lparr>data = brk m, width = width b, height = height b\<rparr>, m')"
    and p: "blocks m' (brk m) = Some px" "blocks m' (data b) = Some px" "brk m \<noteq> data b" by blast
  have "width b * 1 \<le> width b * height b" using assms(1,2) by (intro mult_left_mono) simp_all
  then have "width b \<le> width b * height b" by (simp only: mult_1_right)
  then have w: "width b \<le> 2 ^ 24" using assms(3) by (rule order_trans)
  have "1 * height b \<le> width b * height b" using assms(1,2) by (intro mult_right_mono) simp_all
  then have "height b \<le> width b * height b" by (simp only: mult_1_left)
  then have h: "height b \<le> 2 ^ 24" using assms(3) by (rule order_trans)
  have "f2i (fmul (i2f (width b)) 1) = width b" "f2i (fmul (i2f (height b)) 1) = height b"
    using assms(1,2) w h by (simp_all add: fmul_1 f2i_of_int)
  with r p show ?thesis by simp
qed

theorem scaleBitmap_one_witness:
  "0 < width small_bitmap \<and> 0 < height small_bitmap \<and> width small_bitmap * height small_bitmap \<le> 2 ^ 24
   \<and> blocks small_memory (data small_bitmap) = Some [0xFFFFFFFF, 0xFF000000, 0x00000000, 0x12345678]
   \<and> data small_bitmap < brk small_memory
   \<and> (\<exists>b' m'. scaleBitmap small_bitmap 1 small_memory = Some (b', m')
           \<and> width b' = width small_bitmap \<and> height b' = height small_bitmap
           \<and> width b' = f2i (fmul (i2f (width small_bitmap)) 1)
           \<and> height b' = f2i (fmul (i2f (height small_bitmap)) 1)
           \<and> width b' = \<lfloor>(of_int (width small_bitmap) :: rat) * 1\<rfloor>
           \<and> height b' = \<lfloor>(of_int (height small_bitmap) :: rat) * 1\<rfloor>
           \<and> data b' \<noteq> data small_bitmap
           \<and> blocks m' (data b') = Some [0xFFFFFFFF, 0xFF000000, 0x00000000, 0x12345678]
           \<and> blocks m' (data small_bitmap) = Some [0xFFFFFFFF, 0xFF000000, 0x00000000, 0x12345678])"
proof -
  have h1: "0 < width small_bitmap" "0 < height small_bitmap"
    "width small_bitmap * height small_bitmap \<le> 2 ^ 24"
    by (simp_all add: small_bitmap_def)
  have h2: "blocks small_memory (data small_bitmap) = Some [0xFFFFFFFF, 0xFF000000, 0x00000000, 0x12345678]"
    by (simp add: small_memory_def small_bitmap_def)
  have h3: "length [0xFFFFFFFF, 0xFF000000, 0x00000000, 0x12345678 :: u32] = nat (width small_bitmap * height small_bitmap)"
    by (simp add: small_bitmap_def)
  have h4: "data small_bitmap < brk small_memory" by (simp add: small_memory_def small_bitmap_def)
  from scaleBitmap_one[OF h1 h2 h3 h4] h1 h2 h4 show ?thesis by blast
qed

lemma f32_odd: "f32 16777217 = 16777216"
  by code_simp

lemma scaleBitmap_wide_runs:
  "\<exists>m'. scaleBitmap wide_bitmap 1 wide_memory = Some (\<lparr>data = 3, width = 16777216, height = 1\<rparr>, m')"
proof -
  define b where "b = wide_bitmap"
  define m where "m = wide_memory"
  define w :: int where "w = 16777216"
  define px :: "u32 list" where "px = replicate 16777217 0"
  have bw: "width b = w + 1" "height b = 1" "data b = 2" by (simp_all add: b_def wide_bitmap_def w_def)
  have mb: "blocks m 2 = Some px" "brk m = 3" by (simp_all add: m_def wide_memory_def px_def)
  have lpx: "length px = nat (w + 1)" by (simp add: px_def w_def)
  have w0: "0 < w" "w \<le> 2 ^ 24" "\<bar>w\<bar> \<le> 2 ^ 24" by (simp_all add: w_def)
  have iw: "i2f (w + 1) = of_int w"
    using f32_odd by (simp add: i2f_def w_def)
  have f1: "f32 1 = 1" using f32_of_int[of 1] by simp
  have fw: "f32 (of_int w) = of_int w" using w0 by (intro f32_of_int) simp
  have ws: "fmul (i2f (w + 1)) 1 = of_int w" by (simp add: fmul_def iw fw)
  have hs: "fmul (i2f 1) 1 = 1" using fmul_1[of 1] by simp
  have i1: "i2f 1 = 1" using i2f_small[of 1] by simp
  have wr: "fdiv (i2f (w + 1)) (of_int w) = 1" using w0 by (simp add: fdiv_def iw f1)
  have hr: "fdiv (i2f 1) 1 = 1" by (simp add: fdiv_def i1 f1)
  have sz: "nat (f2i (fmul (of_int w) 1)) = nat (w * 1)"
    using w0 by (simp add: fmul_def fw f2i_of_int)
  define sb where "sb = \<lparr>data = 3, width = w, height = 1\<rparr>"
  define m1 where "m1 = snd (calloc (nat (w * 1)) m)"
  have c: "calloc (nat (w * 1)) m = (3, m1)" by (simp add: m1_def calloc_def mb)
  let ?P = "\<lambda>m. blocks m 2 = Some px"
  let ?g = "\<lambda>k::nat. 0::u32"
  have run: "scaleBitmap b 1 m = map_option (Pair sb) (for_loop 0 1
      (\<lambda>y. for_loop 0 w (scaleBitmap_pixel b sb 1 (f2i (fmul (i2f y) 1) * (w + 1)) y)) m1)"
    unfolding scaleBitmap_def Let_def bw
  proof -
    have d: "height sb = 1" "width sb = w" by (simp_all add: sb_def)
    show "map_option (Pair \<lparr>data = fst (calloc (nat (f2i (fmul (fmul (i2f (w + 1)) 1) (fmul (i2f 1) 1)))) m),
              width = f2i (fmul (i2f (w + 1)) 1), height = f2i (fmul (i2f 1) 1)\<rparr>)
        (for_loop 0 (height \<lparr>data = fst (calloc (nat (f2i (fmul (fmul (i2f (w + 1)) 1) (fmul (i2f 1) 1)))) m),
              width = f2i (fmul (i2f (w + 1)) 1), height = f2i (fmul (i2f 1) 1)\<rparr>)
          (scaleBitmap_row b \<lparr>data = fst (calloc (nat (f2i (fmul (fmul (i2f (w + 1)) 1) (fmul (i2f 1) 1)))) m),
              width = f2i (fmul (i2f (w + 1)) 1), height = f2i (fmul (i2f 1) 1)\<rparr>
            (fdiv (i2f (w + 1)) (fmul (i2f (w + 1)) 1)) (fdiv (i2f 1) (fmul (i2f 1) 1)))
          (snd (calloc (nat (f2i (fmul (fmul (i2f (w + 1)) 1) (fmul (i2f 1) 1)))) m))) =
      map_option (Pair sb) (for_loop 0 1
        (\<lambda>y. for_loop 0 w (scaleBitmap_pixel b sb 1 (f2i (fmul (i2f y) 1) * (w + 1)) y)) m1)"
      by (simp only: ws hs wr hr sz c fst_conv snd_conv f2i_of_int[OF less_imp_le[OF w0(1)]]
        f2i_of_int[of 1, simplified] sb_def[symmetric] scaleBitmap_row_eq bw d)
  qed
  have "\<exists>m'. for_loop 0 1 (\<lambda>y. for_loop 0 w (scaleBitmap_pixel b sb 1 (f2i (fmul (i2f y) 1) * (w + 1)) y)) m1 = Some m'
           \<and> filled ?P 3 (nat (w * 1)) ?g (nat (w * 1)) m'"
  proof (rule fill_loops)
    show "0 < w" "(0::int) \<le> 1" using w0 by simp_all
    have "filled ?P (fst (calloc (nat (w * 1)) m)) (nat (w * 1)) ?g 0 (snd (calloc (nat (w * 1)) m))"
      by (rule filled_init) (simp add: calloc_def mb)
    then show "filled ?P 3 (nat (w * 1)) ?g 0 m1" using c by simp
    fix y x t assume y: "0 \<le> y" "y < (1::int)" and x: "0 \<le> x" "x < w"
      and f: "filled ?P 3 (nat (w * 1)) ?g (nat ((y * w) + x)) t"
    have y0: "y = 0" using y by simp
    have yy: "f2i (fmul (i2f 0) 1) = 0" using fmul_1[of 0] by (simp add: f2i_def)
    have xx: "f2i (fmul (i2f x) 1) = x" using x w0 by (simp add: fmul_1 f2i_of_int)
    have tN: "nat ((y * w) + x) < nat (w * 1)" using x by (simp add: y0)
    have P: "?P t" using f by (simp add: filled_def)
    have ld: "load t 2 x = Some 0"
      using P x by (simp add: load_def px_def w_def)
    have pp: "\<And>dc. ?P (t\<lparr>blocks := (blocks t)(3 \<mapsto> dc)\<rparr>)" using P by simp
    from filled_store[OF f tN pp] obtain t' where
      "store t 3 (int (nat ((y * w) + x))) 0 = Some t'"
      "filled ?P 3 (nat (w * 1)) ?g (Suc (nat ((y * w) + x))) t'" by auto
    then show "\<exists>t'. scaleBitmap_pixel b sb 1 (f2i (fmul (i2f y) 1) * (w + 1)) y x t = Some t'
        \<and> filled ?P 3 (nat (w * 1)) ?g (Suc (nat ((y * w) + x))) t'"
      using x by (simp add: scaleBitmap_pixel_def yy xx ld sb_def bw y0)
  qed
  then obtain m' where "for_loop 0 1 (\<lambda>y. for_loop 0 w (scaleBitmap_pixel b sb 1 (f2i (fmul (i2f y) 1) * (w + 1)) y)) m1 = Some m'"
    by blast
  with run have "scaleBitmap b 1 m = Some (sb, m')" by simp
  then show ?thesis unfolding b_def m_def sb_def w_def by blast
qed

text \<open>
  Claim C9 as stated fails: a bitmap of width \<open>2 ^ 24 + 1\<close> and height 1 has positive
  dimensions, but \<^verbatim>\<open>(float)w\<close> is \<open>2 ^ 24\<close>, and the bitmap that \<^verbatim>\<open>scaleBitmap\<close> returns
  for it with factor 1.0 has width \<open>2 ^ 24\<close>.
\<close>

theorem scaleBitmap_one_wide:
  "0 < width wide_bitmap \<and> 0 < height wide_bitmap
   \<and> blocks wide_memory (data wide_bitmap) = Some (replicate 16777217 0)
   \<and> width wide_bitmap = 16777217
   \<and> map_option (\<lambda>r. (width (fst r), height (fst r))) (scaleBitmap wide_bitmap 1 wide_memory)
       = Some (16777216, 1)"
  using scaleBitmap_wide_runs by (auto simp: wide_bitmap_def wide_memory_def)

lemma fsub_int: "\<bar>a - b\<bar> \<le> 2 ^ 24 \<Longrightarrow> fsub (of_int a) (of_int b) = of_int (a - b)"
  using f32_of_int[of "a - b"] by (simp add: fsub_def)

lemma fadd_int: "\<bar>a + b\<bar> \<le> 2 ^ 24 \<Longrightarrow> fadd (of_int a) (of_int b) = of_int (a + b)"
  using f32_of_int[of "a + b"] by (simp add: fadd_def)

lemma fmul_int_1: "\<bar>a\<bar> \<le> 2 ^ 24 \<Longrightarrow> fmul (of_int a) 1 = of_int a"
  using f32_of_int[of a] by (simp add: fmul_def)

lemma fmul_0: "fmul a 0 = 0" "fmul 0 a = 0"
  by (simp_all add: fmul_def f32_0)

lemma fsub_0: "\<bar>a\<bar> \<le> 2 ^ 24 \<Longrightarrow> fsub (of_int a) 0 = of_int a"
  using fsub_int[of a 0] by simp

lemma fadd_0: "\<bar>a\<bar> \<le> 2 ^ 24 \<Longrightarrow> fadd 0 (of_int a) = of_int a" "\<bar>a\<bar> \<le> 2 ^ 24 \<Longrightarrow> fadd (of_int a) 0 = of_int a"
  using fadd_int[of 0 a] fadd_int[of a 0] by simp_all

lemma rotate0_coords:
  assumes x: "0 \<le> x" "x < w" and y: "0 \<le> y" "y < h" and w: "w \<le> 2 ^ 24" and h: "h \<le> 2 ^ 24"
  shows "fadd (fsub (fmul (fsub (i2f x) (i2f (cdiv w 2))) 1) (fmul (fsub (i2f y) (i2f (cdiv w 2))) 0)) (i2f (cdiv w 2)) = of_int x"
    and "fadd (fadd (fmul (fsub (i2f x) (i2f (cdiv w 2))) 0) (fmul (fsub (i2f y) (i2f (cdiv h 2))) 1)) (i2f (cdiv h 2)) = of_int y"
proof -
  define cx where "cx = w div 2"
  define cy where "cy = h div 2"
  have c: "cdiv w 2 = cx" "cdiv h 2 = cy" using x y by (simp_all add: cdiv_def cx_def cy_def sgn_if)
  have cb: "0 \<le> cx" "cx \<le> 2 ^ 24" "0 \<le> cy" "cy \<le> 2 ^ 24" using x y w h by (simp_all add: cx_def cy_def)
  have cw: "cx \<le> w" "cy \<le> h" using x y by (simp_all add: cx_def cy_def)
  have i: "i2f x = of_int x" "i2f y = of_int y" "i2f cx = of_int cx" "i2f cy = of_int cy"
    using x y w h cb by (simp_all add: i2f_small)
  have b1: "\<bar>x - cx\<bar> \<le> 2 ^ 24" "\<bar>y - cy\<bar> \<le> 2 ^ 24" "\<bar>y - cx\<bar> \<le> 2 ^ 24"
    "\<bar>x\<bar> \<le> 2 ^ 24" "\<bar>y\<bar> \<le> 2 ^ 24" "\<bar>x - cx + cx\<bar> \<le> 2 ^ 24" "\<bar>y - cy + cy\<bar> \<le> 2 ^ 24"
    using x y w h cb cw by simp_all
  show "fadd (fsub (fmul (fsub (i2f x) (i2f (cdiv w 2))) 1) (fmul (fsub (i2f y) (i2f (cdiv w 2))) 0)) (i2f (cdiv w 2)) = of_int x"
    unfolding c i
    by (simp only: fsub_int[OF b1(1)] fmul_int_1[OF b1(1)] fmul_0 fsub_0[OF b1(1)] fadd_int[OF b1(6)]
        diff_add_cancel)
  show "fadd (fadd (fmul (fsub (i2f x) (i2f (cdiv w 2))) 0) (fmul (fsub (i2f y) (i2f (cdiv h 2))) 1)) (i2f (cdiv h 2)) = of_int y"
    unfolding c i
    by (simp only: fsub_int[OF b1(2)] fmul_int_1[OF b1(2)] fmul_0 fadd_0[OF b1(2)] fadd_int[OF b1(7)]
        diff_add_cancel)
qed

lemma lerp_0:
  assumes "0 \<le> p" "p < 256"
  shows "lerp 0 (i2f p) (i2f q) = of_int p" "lerp 0 (of_int p) (of_int q') = of_int p"
proof -
  have b: "\<bar>p\<bar> \<le> 2 ^ 24" using assms by simp
  have one: "fsub 1 0 = 1" using fsub_int[of 1 0] by simp
  have m: "fmul 1 (of_int p) = of_int p" using f32_of_int[OF b] by (simp add: fmul_def)
  show "lerp 0 (of_int p) (of_int q') = of_int p"
    by (simp add: lerp_def one m fmul_0 fadd_0[OF b])
  then show "lerp 0 (i2f p) (i2f q) = of_int p"
    by (simp add: lerp_def one m fmul_0 fadd_0[OF b] i2f_small[OF b])
qed

lemma cround_of_int: "0 \<le> p \<Longrightarrow> cround (of_int p) = p"
proof -
  assume p: "0 \<le> p"
  have "\<lfloor>(of_int p :: rat) + 1 / 2\<rfloor> = p" by (rule floor_unique) simp_all
  with p show ?thesis by (simp add: cround_def)
qed

lemma f32_0_sub: "fsub (of_int a) (of_int a) = 0"
  by (simp add: fsub_def f32_0)

lemma rotate0_color:
  "((((0 OR push_bit 24 (word_of_int (uint (chan 16 p)))) OR push_bit 16 (word_of_int (uint (chan 8 p))))
     OR push_bit 8 (word_of_int (uint (chan 0 p)))) OR push_bit 0 (word_of_int (uint (chan 24 p))))
   = argb_to_rgba (p :: u32)"
  by (simp add: argb_to_rgba_def ac_simps)

lemma rotateBitmap_pixel_0:
  assumes pos: "0 \<le> x" "x < width b" "0 \<le> y" "y < height b"
    and small: "width b \<le> 2 ^ 24" "height b \<le> 2 ^ 24" and area: "width b * height b < 2 ^ 31"
    and px: "length px = nat (width b * height b)" and fresh: "dst \<noteq> data b"
    and f: "filled (\<lambda>m. blocks m (data b) = Some px) dst (nat (width b * height b))
              (rotate0_pixel (width b) (height b) px) (nat ((y * width b) + x)) t"
  shows "\<exists>t'. rotateBitmap_pixel b dst 0 1 y x t = Some t'
           \<and> filled (\<lambda>m. blocks m (data b) = Some px) dst (nat (width b * height b))
               (rotate0_pixel (width b) (height b) px) (Suc (nat ((y * width b) + x))) t'"
proof -
  define w where "w = width b"
  define h where "h = height b"
  define k where "k = nat ((y * w) + x)"
  have f': "filled (\<lambda>m. blocks m (data b) = Some px) dst (nat (w * h)) (rotate0_pixel w h px) k t"
    using f by (simp add: w_def h_def k_def)
  have x: "0 \<le> x" "x < w" and y: "0 \<le> y" "y < h" and wh: "w \<le> 2 ^ 24" "h \<le> 2 ^ 24"
    using pos small by (simp_all add: w_def h_def)
  note ib = idx_bound[OF y x]
  have ik: "int k = (y * w) + x" using ib by (simp add: k_def)
  have kN: "k < nat (w * h)" using ib by (simp add: k_def)
  have dm: "int k div w = y" "int k mod w = x" unfolding ik using divmod_row[OF x] by simp_all
  have P: "blocks t (data b) = Some px" using f by (simp add: filled_def)
  have "0 \<le> y * w" using x y by simp
  moreover have "y * w \<le> (y * w) + x" using x by simp
  moreover have "w * h < 2 ^ 31" using area by (simp add: w_def h_def)
  ultimately have ci: "c_int (y * w) = Some (y * w)" using ib(2) by (simp add: c_int_def)
  note rc = rotate0_coords[OF x y wh]
  have lim: "i2f (w - 1) = of_int (w - 1)" "i2f (h - 1) = of_int (h - 1)"
    using x y wh by (simp_all add: i2f_small)
  show ?thesis
  proof (cases "x < w - 1 \<and> y < h - 1")
    case False
    then have g0: "rotate0_pixel w h px k = 0" by (auto simp: rotate0_pixel_def dm)
    have "rotateBitmap_pixel b dst 0 1 y x t = Some t"
      using False x y unfolding rotateBitmap_pixel_def Let_def w_def[symmetric] h_def[symmetric] rc lim
      by auto
    with filled_skip[OF f' kN g0] show ?thesis by (simp add: w_def h_def k_def)
  next
    case True
    then have g1: "rotate0_pixel w h px k = applyColor (argb_to_rgba (px ! k)) 0"
      by (simp add: rotate0_pixel_def dm)
    have ld: "load t (data b) ((y * w) + x) = Some (px ! k)"
      using P ib px by (simp add: load_def w_def h_def k_def)
    have ld0: "load t dst ((y * w) + x) = Some 0"
      using filled_load[OF f' kN] by (simp add: ik)
    from filled_store[OF f' kN] P fresh obtain t' where
      st: "store t dst (int k) (rotate0_pixel w h px k) = Some t'"
      and f2: "filled (\<lambda>m. blocks m (data b) = Some px) dst (nat (w * h)) (rotate0_pixel w h px) (Suc k) t'"
      by auto
    have L: "\<And>j c c'. lerp 0 (i2f (uint (chan j c))) (i2f (uint (chan j c'))) = of_int (uint (chan j c))"
      by (rule lerp_0(1)[OF chan_lt(2) chan_lt(1)])
    have L2: "\<And>j c q. lerp 0 (of_int (uint (chan j c))) (of_int q) = of_int (uint (chan j c))"
      by (rule lerp_0(2)[OF chan_lt(2) chan_lt(1)])
    have R: "\<And>j c. cround (of_int (uint (chan j c))) = uint (chan j c)"
      by (rule cround_of_int) simp
    have cond: "\<not> ((of_int x :: rat) < 0 \<or> (of_int y :: rat) < 0 \<or> of_int x \<ge> (of_int (w - 1) :: rat)
                 \<or> of_int y \<ge> (of_int (h - 1) :: rat))"
      using True x y by (simp add: not_le) 
    have "rotateBitmap_pixel b dst 0 1 y x t = store t dst ((y * w) + x) (applyColor (argb_to_rgba (px ! k)) 0)"
      unfolding rotateBitmap_pixel_def Let_def w_def[symmetric] h_def[symmetric] rc lim
      by (simp only: cond if_False floor_of_int ceiling_of_int ci ld ld0 bind.simps f32_0_sub L L2 R rotate0_color)
    moreover have "store t dst ((y * w) + x) (applyColor (argb_to_rgba (px ! k)) 0) = Some t'"
      using st by (simp only: ik g1)
    ultimately have "rotateBitmap_pixel b dst 0 1 y x t = Some t'" by simp
    with f2 show ?thesis unfolding k_def w_def h_def by blast
  qed
qed

lemma rotateBitmap_0:
  assumes pos: "0 < width b" "0 < height b" and small: "width b \<le> 2 ^ 24" "height b \<le> 2 ^ 24"
    and area: "width b * height b < 2 ^ 31"
    and px: "blocks m (data b) = Some px" "length px = nat (width b * height b)"
    and wf: "data b < brk m"
  shows "\<exists>m'. rotateBitmap b 0 1 m = Some (\<lparr>data = brk m, width = width b, height = height b\<rparr>, m')
          \<and> blocks m' (brk m) = Some (map (rotate0_pixel (width b) (height b) px) [0..<nat (width b * height b)])
          \<and> blocks m' (data b) = Some px \<and> brk m \<noteq> data b"
proof -
  define N where "N = nat (width b * height b)"
  define m1 where "m1 = snd (calloc N m)"
  have c: "calloc N m = (brk m, m1)" by (simp add: m1_def calloc_def)
  have fresh: "brk m \<noteq> data b" using wf by simp
  let ?P = "\<lambda>m. blocks m (data b) = Some px"
  let ?g = "rotate0_pixel (width b) (height b) px"
  have run: "rotateBitmap b 0 1 m = map_option (Pair \<lparr>data = brk m, width = width b, height = height b\<rparr>)
      (for_loop 0 (height b) (\<lambda>y. for_loop 0 (width b) (rotateBitmap_pixel b (brk m) 0 1 y)) m1)"
  proof -
    have "0 \<le> width b * height b" using pos by simp
    then have "c_int (width b * height b) = Some (width b * height b)"
      using area by (simp add: c_int_def)
    then show ?thesis using c by (simp add: rotateBitmap_def Let_def N_def)
  qed
  have "\<exists>m'. for_loop 0 (height b) (\<lambda>y. for_loop 0 (width b) (rotateBitmap_pixel b (brk m) 0 1 y)) m1 = Some m'
           \<and> filled ?P (brk m) (nat (width b * height b)) ?g (nat (width b * height b)) m'"
  proof (rule fill_loops)
    show "0 < width b" "0 \<le> height b" using pos by simp_all
    have "filled ?P (fst (calloc N m)) N ?g 0 (snd (calloc N m))"
      by (rule filled_init) (simp add: calloc_def px fresh[symmetric])
    then show "filled ?P (brk m) (nat (width b * height b)) ?g 0 m1" using c by (simp add: N_def)
    fix y x t assume "0 \<le> y" "y < height b" "0 \<le> x" "x < width b"
      and "filled ?P (brk m) (nat (width b * height b)) ?g (nat ((y * width b) + x)) t"
    then show "\<exists>t'. rotateBitmap_pixel b (brk m) 0 1 y x t = Some t'
        \<and> filled ?P (brk m) (nat (width b * height b)) ?g (Suc (nat ((y * width b) + x))) t'"
      using rotateBitmap_pixel_0[OF _ _ _ _ small area px(2) fresh] by blast
  qed
  then obtain m' where m': "for_loop 0 (height b) (\<lambda>y. for_loop 0 (width b) (rotateBitmap_pixel b (brk m) 0 1 y)) m1 = Some m'"
    and fin: "filled ?P (brk m) N ?g N m'" by (auto simp: N_def)
  from filled_done[OF fin] run m' fresh show ?thesis by (simp add: N_def)
qed

lemma argb_white: "applyColor (argb_to_rgba 0xFFFFFFFF) 0 = 0xFFFFFFFF"
proof -
  have "argb_to_rgba 0xFFFFFFFF = 0xFFFFFFFF" by (simp add: argb_to_rgba_def chan_def)
  then show ?thesis using applyColor_alpha_255[of "0xFFFFFFFF" 0] by simp
qed

lemma argb_clear: "applyColor (argb_to_rgba 0) 0 = 0"
proof -
  have "argb_to_rgba 0 = 0" by (simp add: argb_to_rgba_def chan_def)
  then show ?thesis using applyColor_alpha_0[of 0 0] by simp
qed

lemma argb_black: "applyColor (argb_to_rgba 0xFF000000) 0 = 0x000000FF"
proof -
  have "argb_to_rgba 0xFF000000 = 0x000000FF" by (simp add: argb_to_rgba_def chan_def)
  then show ?thesis using applyColor_alpha_255[of "0x000000FF" 0] by simp
qed

text \<open>
  Claim C5, amended. For every bitmap with positive width and height of at most
  \<open>2 ^ 24\<close> and fewer than \<open>2 ^ 31\<close> pixels, so that \<^verbatim>\<open>w * h\<close> is an \<^verbatim>\<open>int\<close> (its pixels
  in an allocated block), \<^verbatim>\<open>rotateBitmap\<close> with angle 0 (sine 0,
  cosine 1) returns a new bitmap of the same dimensions in which every pixel of the last
  column and of the last row is zero, and every other pixel, those of the first row and
  the first column included, is \<^verbatim>\<open>applyColor\<close> onto zero of the input pixel with its four
  bytes moved from the order A, R, G, B to R, G, B, A; this reproduces the input pixels
  \<^verbatim>\<open>0xFFFFFFFF\<close> and 0.
\<close>

theorem rotateBitmap_angle_0:
  assumes "0 < width b" "0 < height b" "width b \<le> 2 ^ 24" "height b \<le> 2 ^ 24"
    and "width b * height b < 2 ^ 31"
    and "blocks m (data b) = Some px" "length px = nat (width b * height b)"
    and "data b < brk m"
  shows "\<exists>b' m' out. rotateBitmap b 0 1 m = Some (b', m')
           \<and> width b' = width b \<and> height b' = height b \<and> data b' \<noteq> data b
           \<and> blocks m' (data b) = Some px
           \<and> blocks m' (data b') = Some out \<and> length out = nat (width b * height b)
           \<and> (\<forall>x y. 0 \<le> x \<and> x < width b \<and> 0 \<le> y \<and> y < height b \<longrightarrow>
                 out ! nat ((y * width b) + x) =
                   (if x < width b - 1 \<and> y < height b - 1
                    then applyColor (argb_to_rgba (px ! nat ((y * width b) + x))) 0 else 0))
           \<and> applyColor (argb_to_rgba 0xFFFFFFFF) 0 = 0xFFFFFFFF \<and> applyColor (argb_to_rgba 0) 0 = 0"
proof -
  define N where "N = nat (width b * height b)"
  define out where "out = map (rotate0_pixel (width b) (height b) px) [0..<N]"
  from rotateBitmap_0[OF assms] obtain m' where
    r: "rotateBitmap b 0 1 m = Some (\<lparr>data = brk m, width = width b, height = height b\<rparr>, m')"
    and o: "blocks m' (brk m) = Some out" and p: "blocks m' (data b) = Some px" "brk m \<noteq> data b"
    by (auto simp: out_def N_def)
  have "out ! nat ((y * width b) + x) =
          (if x < width b - 1 \<and> y < height b - 1
           then applyColor (argb_to_rgba (px ! nat ((y * width b) + x))) 0 else 0)"
    if "0 \<le> x \<and> x < width b \<and> 0 \<le> y \<and> y < height b" for x y
  proof -
    from that have x: "0 \<le> x" "x < width b" and y: "0 \<le> y" "y < height b" by simp_all
    note ib = idx_bound[OF y x]
    have "nat ((y * width b) + x) < N" using ib by (simp add: N_def)
    then have "out ! nat ((y * width b) + x) = rotate0_pixel (width b) (height b) px (nat ((y * width b) + x))"
      by (simp add: out_def)
    also have "\<dots> = (if x < width b - 1 \<and> y < height b - 1
           then applyColor (argb_to_rgba (px ! nat ((y * width b) + x))) 0 else 0)"
      using ib divmod_row[OF x, of y] by (simp add: rotate0_pixel_def)
    finally show ?thesis .
  qed
  moreover have "length out = nat (width b * height b)" by (simp add: out_def N_def)
  ultimately show ?thesis using r o p argb_white argb_clear by auto
qed

theorem rotateBitmap_angle_0_witness:
  "0 < width small_bitmap \<and> 0 < height small_bitmap
   \<and> width small_bitmap \<le> 2 ^ 24 \<and> height small_bitmap \<le> 2 ^ 24
   \<and> width small_bitmap * height small_bitmap < 2 ^ 31
   \<and> blocks small_memory (data small_bitmap) = Some [0xFFFFFFFF, 0xFF000000, 0x00000000, 0x12345678]
   \<and> data small_bitmap < brk small_memory
   \<and> (\<exists>b' m' out. rotateBitmap small_bitmap 0 1 small_memory = Some (b', m')
           \<and> width b' = width small_bitmap \<and> height b' = height small_bitmap
           \<and> data b' \<noteq> data small_bitmap
           \<and> blocks m' (data small_bitmap) = Some [0xFFFFFFFF, 0xFF000000, 0x00000000, 0x12345678]
           \<and> blocks m' (data b') = Some out \<and> length out = nat (width small_bitmap * height small_bitmap)
           \<and> (\<forall>x y. 0 \<le> x \<and> x < width small_bitmap \<and> 0 \<le> y \<and> y < height small_bitmap \<longrightarrow>
                 out ! nat ((y * width small_bitmap) + x) =
                   (if x < width small_bitmap - 1 \<and> y < height small_bitmap - 1
                    then applyColor (argb_to_rgba ([0xFFFFFFFF, 0xFF000000, 0x00000000, 0x12345678] ! nat ((y * width small_bitmap) + x))) 0 else 0))
           \<and> applyColor (argb_to_rgba 0xFFFFFFFF) 0 = 0xFFFFFFFF \<and> applyColor (argb_to_rgba 0) 0 = 0)"
proof -
  have h1: "0 < width small_bitmap" "0 < height small_bitmap"
    "width small_bitmap \<le> 2 ^ 24" "height small_bitmap \<le> 2 ^ 24"
    "width small_bitmap * height small_bitmap < 2 ^ 31"
    by (simp_all add: small_bitmap_def)
  have h2: "blocks small_memory (data small_bitmap) = Some [0xFFFFFFFF, 0xFF000000, 0x00000000, 0x12345678]"
    by (simp add: small_memory_def small_bitmap_def)
  have h3: "length [0xFFFFFFFF, 0xFF000000, 0x00000000, 0x12345678 :: u32] = nat (width small_bitmap * height small_bitmap)"
    by (simp add: small_bitmap_def)
  have h4: "data small_bitmap < brk small_memory" by (simp add: small_memory_def small_bitmap_def)
  from rotateBitmap_angle_0[OF h1 h2 h3 h4] h1 h2 h4 show ?thesis by blast
qed

text \<open>
  Claim C5 as stated fails. On a 3 by 3 bitmap of pixels \<^verbatim>\<open>0xFF000000\<close> the rotation by 0
  gives \<^verbatim>\<open>0x000000FF\<close> in the first two rows and columns and 0 elsewhere: the border
  pixel at \<open>(0, 0)\<close> is not zero, and the inner pixel at \<open>(1, 1)\<close> is not the input's.
\<close>

theorem rotateBitmap_angle_0_changes:
  "blocks opaque_memory (data opaque_bitmap) = Some (replicate 9 0xFF000000)
   \<and> map_option (\<lambda>r. blocks (snd r) (data (fst r))) (rotateBitmap opaque_bitmap 0 1 opaque_memory)
       = Some (Some [0xFF, 0xFF, 0, 0xFF, 0xFF, 0, 0, 0, 0])
   \<and> [0xFF, 0xFF, 0, 0xFF, 0xFF, 0, 0, 0, 0 :: u32] ! 0 \<noteq> 0
   \<and> [0xFF, 0xFF, 0, 0xFF, 0xFF, 0, 0, 0, 0 :: u32] ! 4 \<noteq> replicate 9 0xFF000000 ! 4"
proof -
  have h1: "0 < width opaque_bitmap" "0 < height opaque_bitmap"
    "width opaque_bitmap \<le> 2 ^ 24" "height opaque_bitmap \<le> 2 ^ 24"
    "width opaque_bitmap * height opaque_bitmap < 2 ^ 31"
    by (simp_all add: opaque_bitmap_def)
  have h2: "blocks opaque_memory (data opaque_bitmap) = Some (replicate 9 0xFF000000)"
    by (simp add: opaque_memory_def opaque_bitmap_def)
  have h3: "length (replicate 9 (0xFF000000 :: u32)) = nat (width opaque_bitmap * height opaque_bitmap)"
    by (simp add: opaque_bitmap_def)
  have h4: "data opaque_bitmap < brk opaque_memory" by (simp add: opaque_memory_def opaque_bitmap_def)
  have px: "k < 9 \<Longrightarrow> replicate 9 (0xFF000000 :: u32) ! k = 0xFF000000" for k by simp
  have upt9: "[0..<9] = [0, 1, 2, 3, 4, 5, 6, 7, 8 :: nat]"
    by (simp add: upt_conv_Cons eval_nat_numeral)
  have out: "map (rotate0_pixel 3 3 (replicate 9 0xFF000000)) [0..<9] = [0xFF, 0xFF, 0, 0xFF, 0xFF, 0, 0, 0, 0]"
    unfolding upt9 by (simp add: rotate0_pixel_def argb_black)
  from rotateBitmap_0[OF h1 h2 h3 h4] obtain m' where
    "rotateBitmap opaque_bitmap 0 1 opaque_memory
       = Some (\<lparr>data = brk opaque_memory, width = width opaque_bitmap, height = height opaque_bitmap\<rparr>, m')"
    "blocks m' (brk opaque_memory) = Some (map (rotate0_pixel (width opaque_bitmap) (height opaque_bitmap)
        (replicate 9 0xFF000000)) [0..<nat (width opaque_bitmap * height opaque_bitmap)])"
    by blast
  then have "map_option (\<lambda>r. blocks (snd r) (data (fst r))) (rotateBitmap opaque_bitmap 0 1 opaque_memory)
       = Some (Some [0xFF, 0xFF, 0, 0xFF, 0xFF, 0, 0, 0, 0])"
    using out by (simp add: opaque_bitmap_def)
  with h2 show ?thesis by simp
qed

lemma rotateBitmap_overflow:
  "rotateBitmap \<lparr>data = p, width = 65536, height = 65536\<rparr> angleSin angleCos m = None"
  by (simp add: rotateBitmap_def c_int_def)

lemma f32_neg: "f32 (- x) = - f32 x"
  by (simp add: f32_def Let_def sgn_minus)

lemma f32_close: "\<bar>f32 x - x\<bar> \<le> \<bar>x\<bar> / 2 ^ 24 + 1 / 2 ^ 150"
proof (cases "0 \<le> x")
  case True
  then show ?thesis using f32_err[of x] by simp
next
  case False
  then have n: "0 \<le> - x" by simp
  have "\<bar>f32 x - x\<bar> = \<bar>f32 (- x) - (- x)\<bar>" unfolding f32_neg by linarith
  also have "\<dots> \<le> (- x) / 2 ^ 24 + 1 / 2 ^ 150" by (rule f32_err[OF n])
  also have "- x = \<bar>x\<bar>" using False by simp
  finally show ?thesis .
qed

lemma f64_0: "f64 0 = 0" by (simp add: f64_def)

lemma f64_neg: "f64 (- x) = - f64 x"
  by (simp add: f64_def Let_def sgn_minus)

lemma f64_err: assumes "0 \<le> x" shows "\<bar>f64 x - x\<bar> \<le> x / 2 ^ 53 + 1 / 2 ^ 53"
proof (cases "x = 0")
  case True then show ?thesis by (simp add: f64_0)
next
  case False
  with assms have xp: "0 < x" by simp
  define e where "e = max (flog2 x) (- 1022)"
  define q :: rat where "q = 2 powi (e - 52)"
  have qp: "0 < q" unfolding q_def by simp
  have fx: "f64 x = of_int (rne (x / q)) * q"
    using xp by (simp add: f64_def Let_def e_def q_def)
  have "\<bar>f64 x - x\<bar> = \<bar>of_int (rne (x / q)) - x / q\<bar> * q"
  proof -
    have "f64 x - x = (of_int (rne (x / q)) - x / q) * q"
      using qp by (simp add: fx left_diff_distrib)
    then show ?thesis using qp by (simp add: abs_mult)
  qed
  also have "\<dots> \<le> 1 / 2 * q" using rne_err[of "x / q"] qp by (intro mult_right_mono) auto
  finally have b: "\<bar>f64 x - x\<bar> \<le> q / 2" by simp
  have "q / 2 = 2 powi (e - 53)"
    unfolding q_def by (simp add: power_int_diff)
  also have "\<dots> \<le> x / 2 ^ 53 + 1 / 2 ^ 53"
  proof (cases "- 1022 \<le> flog2 x")
    case True
    then have "e = flog2 x" by (simp add: e_def)
    then have "(2::rat) powi (e - 53) = 2 powi (flog2 x) / 2 ^ 53" by (simp add: power_int_diff)
    also have "\<dots> \<le> x / 2 ^ 53" using flog2_lower[OF xp] by (simp add: divide_right_mono)
    finally show ?thesis by simp
  next
    case False
    then have "e = - 1022" by (simp add: e_def)
    then have "(2::rat) powi (e - 53) = 2 powi (- 1075)" by simp
    also have "\<dots> \<le> 2 powi (- 53)" by (rule power_int_increasing) simp_all
    also have "\<dots> = 1 / 2 ^ 53" by (simp add: power_int_def field_simps)
    finally show ?thesis using xp by simp
  qed
  finally show ?thesis using b by simp
qed

lemma f64_close: "\<bar>f64 x - x\<bar> \<le> \<bar>x\<bar> / 2 ^ 53 + 1 / 2 ^ 53"
proof (cases "0 \<le> x")
  case True
  then show ?thesis using f64_err[of x] by simp
next
  case False
  then have n: "0 \<le> - x" by simp
  have "\<bar>f64 x - x\<bar> = \<bar>f64 (- x) - (- x)\<bar>" unfolding f64_neg by linarith
  also have "\<dots> \<le> (- x) / 2 ^ 53 + 1 / 2 ^ 53" by (rule f64_err[OF n])
  also have "- x = \<bar>x\<bar>" using False by simp
  finally show ?thesis .
qed

lemma tiny32: "(1::rat) / 2 ^ 150 \<le> 1 / 2 ^ 24"
  by (intro divide_left_mono power_increasing) simp_all

lemma f64_near: assumes "\<bar>x\<bar> \<le> 127" shows "\<bar>f64 x - x\<bar> \<le> 1 / 70368744177664"
proof -
  have "\<bar>x\<bar> / 2 ^ 53 \<le> 127 / 2 ^ 53" using assms by (simp add: divide_right_mono)
  with f64_close[of x] have "\<bar>f64 x - x\<bar> \<le> 127 / 2 ^ 53 + 1 / 2 ^ 53" by linarith
  then show ?thesis by simp
qed

lemma f32_near: assumes "\<bar>x\<bar> \<le> 101" shows "\<bar>f32 x - x\<bar> \<le> 51 / 8388608"
proof -
  have "\<bar>x\<bar> / 2 ^ 24 \<le> 101 / 2 ^ 24" using assms by (simp add: divide_right_mono)
  with f32_close[of x] tiny32 have "\<bar>f32 x - x\<bar> \<le> 101 / 2 ^ 24 + 1 / 2 ^ 24" by linarith
  then show ?thesis by simp
qed

lemma M_PI_bounds: "31 / 10 < M_PI" "M_PI < 32 / 10"
proof -
  have "\<bar>M_PI - 314159265358979323846 / 100000000000000000000\<bar> \<le> 1 / 70368744177664"
    unfolding M_PI_def by (rule f64_near) simp
  then show "31 / 10 < M_PI" by linarith
  from \<open>\<bar>M_PI - 314159265358979323846 / 100000000000000000000\<bar> \<le> 1 / 70368744177664\<close>
  show "M_PI < 32 / 10" by linarith
qed

lemma two_pi_bounds: "6 < dmul 2 M_PI" "dmul 2 M_PI < 8"
proof -
  have "\<bar>2 * M_PI\<bar> \<le> 127" using M_PI_bounds by linarith
  from f64_near[OF this] have d: "\<bar>dmul 2 M_PI - 2 * M_PI\<bar> \<le> 1 / 70368744177664" by (simp add: dmul_def)
  show "6 < dmul 2 M_PI" using d M_PI_bounds by linarith
  show "dmul 2 M_PI < 8" using d M_PI_bounds by linarith
qed

lemma angle_step:
  assumes "0 \<le> a" "a < 8"
  shows "a + 1 / 200 \<le> fadd a (f32 (1 / 100))"
proof -
  define c where "c = f32 (1 / 100)"
  have "\<bar>c - 1 / 100\<bar> \<le> 51 / 8388608" unfolding c_def by (rule f32_near) simp
  then have c: "1 / 100 - 51 / 8388608 \<le> c" "c \<le> 1 / 100 + 51 / 8388608" by linarith+
  then have "\<bar>a + c\<bar> \<le> 101" using assms by linarith
  from f32_near[OF this] have "a + c - 51 / 8388608 \<le> f32 (a + c)" by linarith
  with c(1) have "a + 1 / 200 \<le> f32 (a + c)" by linarith
  then show ?thesis by (simp only: fadd_def c_def)
qed

lemma ring_value:
  assumes "- 50 \<le> P" "P \<le> U" "U \<le> 50"
  shows "- (7 / 1048576) \<le> f32 (dadd 50 (f64 P))" "f32 (dadd 50 (f64 P)) \<le> 50 + U + 7 / 1048576"
proof -
  define p where "p = f64 P"
  define s where "s = f64 (50 + p)"
  define v where "v = f32 s"
  have "\<bar>P\<bar> \<le> 127" using assms by linarith
  from f64_near[OF this] have p: "\<bar>p - P\<bar> \<le> 1 / 70368744177664" by (simp add: p_def)
  then have "\<bar>50 + p\<bar> \<le> 127" using assms by linarith
  from f64_near[OF this] have s: "\<bar>s - (50 + p)\<bar> \<le> 1 / 70368744177664" by (simp add: s_def)
  then have "\<bar>s\<bar> \<le> 101" using p assms by linarith
  from f32_near[OF this] have v: "\<bar>v - s\<bar> \<le> 51 / 8388608" by (simp add: v_def)
  have "- (7 / 1048576) \<le> v" using p s v assms by linarith
  moreover have "v \<le> 50 + U + 7 / 1048576" using p s v assms by linarith
  ultimately show "- (7 / 1048576) \<le> f32 (dadd 50 (f64 P))" "f32 (dadd 50 (f64 P)) \<le> 50 + U + 7 / 1048576"
    by (simp_all add: v_def s_def p_def dadd_def)
qed

lemma f2i_lower: "- 1 < v \<Longrightarrow> 0 \<le> f2i v"
  by (simp add: f2i_def)

lemma f2i_upper: "v < of_int n + 1 \<Longrightarrow> 0 \<le> n \<Longrightarrow> f2i v \<le> n"
  unfolding f2i_def by (auto simp: floor_le_iff ceiling_le_iff) 

lemma ring_product:
  fixes r t u :: rat
  assumes "0 \<le> r" "r \<le> 50" "\<bar>t\<bar> \<le> 1" "t \<le> u" "0 \<le> u"
  shows "- 50 \<le> r * t" "r * t \<le> 50 * u"
proof -
  have "r * t \<le> r * u" using assms by (intro mult_left_mono) simp_all
  also have "\<dots> \<le> 50 * u" using assms by (intro mult_right_mono) simp_all
  finally show "r * t \<le> 50 * u" .
  have "- 1 \<le> t" using assms by linarith
  then have "r * (- 1) \<le> r * t" using assms by (intro mult_left_mono) simp_all
  then show "- 50 \<le> r * t" using assms by linarith
qed

text \<open>The pixel index of a ring point lies in the bitmap.\<close>

lemma ring_index:
  fixes r s c :: rat
  assumes r: "0 \<le> r" "r \<le> 50"
    and t: "\<bar>s\<bar> \<le> 1" "\<bar>c\<bar> \<le> 1" "s \<le> 1 - 1 / 2 ^ 22" "s \<le> 24 / 25 \<or> c \<le> 24 / 25"
  defines "x \<equiv> f32 (dadd 50 (dmul r c))" and "y \<equiv> f32 (dadd 50 (dmul r s))"
  shows "0 \<le> (f2i y * 100) + f2i x" "(f2i y * 100) + f2i x < 10000" "0 \<le> f2i y" "f2i y \<le> 99"
proof -
  have s22: "s \<le> 4194303 / 4194304" using t(3) by simp
  note px = ring_product[OF r t(2), of 1, simplified]
  note py = ring_product[OF r t(1) s22, simplified]
  have c1: "c \<le> 1" using t(2) by linarith
  from ring_value[OF ring_product(1)[OF r t(2) c1] ring_product(2)[OF r t(2) c1]]
  have x: "- (7 / 1048576) \<le> x" "x \<le> 50 + 50 * 1 + 7 / 1048576"
    by (simp_all add: x_def dmul_def)
  have s0: "(0::rat) \<le> 4194303 / 4194304" by simp
  from ring_value[OF ring_product(1)[OF r t(1) s22 s0] ring_product(2)[OF r t(1) s22 s0]]
  have y: "- (7 / 1048576) \<le> y" "y \<le> 50 + 50 * (4194303 / 4194304) + 7 / 1048576"
    by (simp_all add: y_def dmul_def)
  have x0: "0 \<le> f2i x" using x(1) by (intro f2i_lower) linarith
  have y0: "0 \<le> f2i y" using y(1) by (intro f2i_lower) linarith
  have x100: "f2i x \<le> 100" using x(2) by (intro f2i_upper) simp_all
  have y99: "f2i y \<le> 99" using y(2) by (intro f2i_upper) simp_all
  show "0 \<le> (f2i y * 100) + f2i x" using x0 y0 by simp
  show "0 \<le> f2i y" "f2i y \<le> 99" by fact+
  from t(4) show "(f2i y * 100) + f2i x < 10000"
  proof
    assume a: "s \<le> 24 / 25"
    have z: "(0::rat) \<le> 24 / 25" by simp
    from ring_value[OF ring_product(1)[OF r t(1) a z] ring_product(2)[OF r t(1) a z]]
    have "y \<le> 50 + 50 * (24 / 25) + 7 / 1048576" by (simp add: y_def dmul_def)
    then have "f2i y \<le> 98" by (intro f2i_upper) simp_all
    with x100 show ?thesis by linarith
  next
    assume a: "c \<le> 24 / 25"
    have z: "(0::rat) \<le> 24 / 25" by simp
    from ring_value[OF ring_product(1)[OF r t(2) a z] ring_product(2)[OF r t(2) a z]]
    have "x \<le> 50 + 50 * (24 / 25) + 7 / 1048576" by (simp add: x_def dmul_def)
    then have "f2i x \<le> 98" by (intro f2i_upper) simp_all
    with y99 show ?thesis by linarith
  qed
qed

lemma float_loop_total:
  fixes d :: rat
  assumes I: "I a s" and d: "0 < d"
    and step: "\<And>a s. I a s \<Longrightarrow> a < hi \<Longrightarrow> (\<exists>s'. body a s = Some s' \<and> I (fadd a st) s') \<and> a + d \<le> fadd a st"
  shows "\<exists>s' a'. float_loop a hi st body s = Some s' \<and> I a' s' \<and> \<not> a' < hi"
  using I
proof (induction "nat \<lceil>(hi - a) / d\<rceil>" arbitrary: a s rule: less_induct)
  case less
  show ?case
  proof (cases "a < hi")
    case False
    then have "float_loop a hi st body s = Some s" by (subst float_loop.simps) simp
    with less.prems False show ?thesis by blast
  next
    case True
    from step[OF less.prems True] obtain s' where
      s': "body a s = Some s'" "I (fadd a st) s'" and pr: "a + d \<le> fadd a st" by blast
    have pos: "0 < (hi - a) / d" using True d by simp
    have "(hi - fadd a st) / d \<le> (hi - a - d) / d" using pr d by (intro divide_right_mono) simp_all
    also have "\<dots> = (hi - a) / d - 1" using d by (simp add: field_simps)
    finally have "\<lceil>(hi - fadd a st) / d\<rceil> \<le> \<lceil>(hi - a) / d - 1\<rceil>" by (rule ceiling_mono)
    then have "\<lceil>(hi - fadd a st) / d\<rceil> \<le> \<lceil>(hi - a) / d\<rceil> - 1" by simp
    moreover have "0 < \<lceil>(hi - a) / d\<rceil>" using pos by (simp add: zero_less_ceiling)
    ultimately have "nat \<lceil>(hi - fadd a st) / d\<rceil> < nat \<lceil>(hi - a) / d\<rceil>" by linarith
    from less.hyps[OF this s'(2)] obtain t a' where
      "float_loop (fadd a st) hi st body s' = Some t" "I a' t" "\<not> a' < hi" by blast
    then show ?thesis using True s'(1) by (subst float_loop.simps) auto
  qed
qed

lemma same_shape_refl: "same_shape m m"
  by (simp add: same_shape_def)

lemma same_shape_trans: "same_shape a b \<Longrightarrow> same_shape b c \<Longrightarrow> same_shape a c"
  by (simp add: same_shape_def)

lemma pixels_shape: "same_shape m m' \<Longrightarrow> pixels m p n \<Longrightarrow> pixels m' p n"
  by (simp add: same_shape_def pixels_def)

lemma c_int_ok: "- (2 ^ 31) \<le> v \<Longrightarrow> v < 2 ^ 31 \<Longrightarrow> c_int v = Some v"
  by (simp add: c_int_def)

lemma store_ok:
  assumes "pixels m p n" "0 \<le> i" "i < int n"
  shows "\<exists>m'. store m p i v = Some m' \<and> same_shape m m'"
proof -
  from assms(1) obtain xs where xs: "blocks m p = Some xs" "length xs = n"
    by (auto simp: pixels_def)
  have "store m p i v = Some (m\<lparr>blocks := (blocks m)(p \<mapsto> xs[nat i := v])\<rparr>)"
    using assms(2,3) xs by (simp add: store_def)
  moreover have "same_shape m (m\<lparr>blocks := (blocks m)(p \<mapsto> xs[nat i := v])\<rparr>)"
    using xs by (simp add: same_shape_def)
  ultimately show ?thesis by blast
qed


lemma rect_loops:
  assumes init: "same_shape m0 m" and hw: "0 \<le> h" "0 \<le> w"
    and step: "\<And>y x t. 0 \<le> y \<Longrightarrow> y < h \<Longrightarrow> 0 \<le> x \<Longrightarrow> x < w \<Longrightarrow> same_shape m0 t
        \<Longrightarrow> \<exists>t'. body y x t = Some t' \<and> same_shape m0 t'"
  shows "\<exists>m'. for_loop 0 h (\<lambda>y. for_loop 0 w (body y)) m = Some m' \<and> same_shape m0 m'"
proof (rule for_loop_total[where I = "\<lambda>y t. same_shape m0 t"])
  show "same_shape m0 m" by fact
  show "0 \<le> h" by fact
  fix y t assume y: "0 \<le> y" "y < h" and t: "same_shape m0 t"
  show "\<exists>t'. for_loop 0 w (body y) t = Some t' \<and> same_shape m0 t'"
  proof (rule for_loop_total[where I = "\<lambda>x t. same_shape m0 t"])
    show "same_shape m0 t" by fact
    show "0 \<le> w" by fact
    fix x u assume "0 \<le> x" "x < w" "same_shape m0 u"
    from step[OF y this] show "\<exists>t'. body y x u = Some t' \<and> same_shape m0 t'" .
  qed
qed

lemma fillBitmap_ok:
  assumes "pixels m p 10000"
  shows "\<exists>m'. fillBitmap \<lparr>data = p, width = 100, height = 100\<rparr> color m = Some m' \<and> same_shape m m'"
  unfolding fillBitmap_def Bitmap.simps
proof (rule rect_loops)
  show "same_shape m m" by (rule same_shape_refl)
  show "(0::int) \<le> 100" "(0::int) \<le> 100" by simp_all
  fix y x :: int and t assume y: "0 \<le> y" "y < 100" and x: "0 \<le> x" "x < 100" and t: "same_shape m t"
  have ci: "c_int (y * 100) = Some (y * 100)" using y by (intro c_int_ok) simp_all
  have "pixels t p 10000" using pixels_shape[OF t assms] .
  from store_ok[OF this, of "(y * 100) + x" "word_of_int color"] y x obtain t' where
    "store t p ((y * 100) + x) (word_of_int color) = Some t'" "same_shape t t'" by auto
  then show "\<exists>t'. do { row \<leftarrow> c_int (y * 100); store t p (row + x) (word_of_int color) } = Some t'
      \<and> same_shape m t'"
    using same_shape_trans[OF t] by (simp add: ci)
qed

lemma plot_ok:
  assumes px: "pixels m p 10000"
    and i: "0 \<le> (f2i y * 100) + f2i x" "(f2i y * 100) + f2i x < 10000" and yb: "0 \<le> f2i y" "f2i y \<le> 99"
  shows "\<exists>m'. animateRipple_plot \<lparr>data = p, width = 100, height = 100\<rparr> x y color m = Some m'
           \<and> same_shape m m'"
proof -
  have ci: "c_int (f2i y * 100) = Some (f2i y * 100)" using yb by (intro c_int_ok) simp_all
  have cs: "c_int 10000 = Some 10000" by (simp add: c_int_def)
  have cj: "c_int ((f2i y * 100) + f2i x) = Some ((f2i y * 100) + f2i x)"
    using i by (intro c_int_ok) simp_all
  from store_ok[OF px i(1), of color] i(2) obtain m' where
    "store m p ((f2i y * 100) + f2i x) color = Some m'" "same_shape m m'" by auto
  then show ?thesis using i(2) by (simp add: animateRipple_plot_def ci cj cs)
qed

lemma angle_ok:
  assumes px: "pixels m p 10000"
    and rp: "bitmap ripple = \<lparr>data = p, width = 100, height = 100\<rparr>" "radius ripple = of_int R"
    and R: "21 \<le> R" "R \<le> 47" and L: "0 \<le> L" "L \<le> 3"
    and t: "\<bar>sn a\<bar> \<le> 1" "\<bar>cs a\<bar> \<le> 1" "sn a \<le> 1 - 1 / 2 ^ 22" "sn a \<le> 24 / 25 \<or> cs a \<le> 24 / 25"
  shows "\<exists>m'. animateRipple_angle sn cs ripple 50 50 (of_int L) color a m = Some m' \<and> same_shape m m'"
proof -
  have ra: "fadd (of_int R) (of_int L) = of_int (R + L)" using R L by (intro fadd_int) simp
  have rs: "fsub (of_int R) (of_int L) = of_int (R - L)" using R L by (intro fsub_int) simp
  have b1: "(0::rat) \<le> of_int (R + L)" "(of_int (R + L) :: rat) \<le> 50" using R L by simp_all
  have b2: "(0::rat) \<le> of_int (R - L)" "(of_int (R - L) :: rat) \<le> 50" using R L by simp_all
  note i1 = ring_index[OF b1 t]
  note i2 = ring_index[OF b2 t]
  from plot_ok[OF px i1, of color] obtain m1 where
    m1: "animateRipple_plot \<lparr>data = p, width = 100, height = 100\<rparr>
           (f32 (dadd 50 (dmul (of_int (R + L)) (cs a)))) (f32 (dadd 50 (dmul (of_int (R + L)) (sn a)))) color m = Some m1"
    and s1: "same_shape m m1" by blast
  from plot_ok[OF pixels_shape[OF s1 px] i2, of color] obtain m2 where
    m2: "animateRipple_plot \<lparr>data = p, width = 100, height = 100\<rparr>
           (f32 (dadd 50 (dmul (of_int (R - L)) (cs a)))) (f32 (dadd 50 (dmul (of_int (R - L)) (sn a)))) color m1 = Some m2"
    and s2: "same_shape m1 m2" by blast
  have "animateRipple_angle sn cs ripple 50 50 (of_int L) color a m = Some m2"
    unfolding animateRipple_angle_def Let_def rp ra rs by (simp only: m1 m2 bind.simps)
  with same_shape_trans[OF s1 s2] show ?thesis by blast
qed

lemma ring_angle_Suc: "ring_angle (Suc k) = fadd (ring_angle k) (f32 (1 / 100))"
  by (simp add: ring_angle_def)

lemma angles_ok:
  assumes px: "pixels m p 10000"
    and rp: "bitmap ripple = \<lparr>data = p, width = 100, height = 100\<rparr>" "radius ripple = of_int R"
    and R: "21 \<le> R" "R \<le> 47" and L: "0 \<le> L" "L \<le> 3"
    and ok: "ring_ok sn cs"
  shows "\<exists>m'. float_loop 0 (dmul 2 M_PI) (f32 (1 / 100))
                (animateRipple_angle sn cs ripple 50 50 (of_int L) color) m = Some m' \<and> same_shape m m'"
proof -
  let ?I = "\<lambda>a t. (\<exists>k. a = ring_angle k) \<and> 0 \<le> a \<and> same_shape m t"
  have "\<exists>s' a'. float_loop 0 (dmul 2 M_PI) (f32 (1 / 100))
                (animateRipple_angle sn cs ripple 50 50 (of_int L) color) m = Some s' \<and> ?I a' s'
              \<and> \<not> a' < dmul 2 M_PI"
  proof (rule float_loop_total[where I = ?I and d = "1 / 200"])
    have "(0::rat) = ring_angle 0" by (simp add: ring_angle_def)
    then show "?I 0 m" using same_shape_refl by auto
    show "(0::rat) < 1 / 200" by simp
    fix a t assume I: "?I a t" and lt: "a < dmul 2 M_PI"
    then obtain k where k: "a = ring_angle k" and a0: "0 \<le> a" and sh: "same_shape m t" by blast
    have a8: "a < 8" using lt two_pi_bounds(2) by linarith
    note st = angle_step[OF a0 a8]
    from ok lt have tr: "\<bar>sn a\<bar> \<le> 1" "\<bar>cs a\<bar> \<le> 1" "sn a \<le> 1 - 1 / 2 ^ 22" "sn a \<le> 24 / 25 \<or> cs a \<le> 24 / 25"
      unfolding ring_ok_def k by blast+
    from angle_ok[where sn = sn and cs = cs and a = a and color = color, OF pixels_shape[OF sh px] rp R L tr] obtain t' where
      t': "animateRipple_angle sn cs ripple 50 50 (of_int L) color a t = Some t'" "same_shape t t'" by blast
    have "fadd a (f32 (1 / 100)) = ring_angle (Suc k)" by (simp add: k ring_angle_Suc)
    moreover have "0 \<le> fadd a (f32 (1 / 100))" using st a0 by linarith
    ultimately have "?I (fadd a (f32 (1 / 100))) t'" using same_shape_trans[OF sh t'(2)] by blast
    with t'(1) st
    show "(\<exists>s'. animateRipple_angle sn cs ripple 50 50 (of_int L) color a t = Some s'
              \<and> ?I (fadd a (f32 (1 / 100))) s') \<and> a + 1 / 200 \<le> fadd a (f32 (1 / 100))"
      by blast
  qed
  then show ?thesis by blast
qed

lemma line_ok:
  assumes px: "pixels m p 10000"
    and rp: "bitmap ripple = \<lparr>data = p, width = 100, height = 100\<rparr>" "radius ripple = of_int R"
    and R: "21 \<le> R" "R \<le> 47" and L: "0 \<le> L" "L \<le> 3"
    and ok: "ring_ok sn cs"
  shows "\<exists>s'. animateRipple_line sn cs ripple 50 50 (of_int L) (sa, m) = Some s' \<and> same_shape m (snd s')"
proof -
  define color :: u32 where
    "color = push_bit 8 0x6f6fbf OR word_of_int (f2i (fmul (fmul (alpha ripple) 255) sa))"
  from angles_ok[OF px rp R L ok, of color] obtain m' where
    m': "float_loop 0 (dmul 2 M_PI) (f32 (1 / 100))
           (animateRipple_angle sn cs ripple 50 50 (of_int L) color) m = Some m'"
    and sh: "same_shape m m'" by blast
  have "animateRipple_line sn cs ripple 50 50 (of_int L) (sa, m) = Some (fsub sa (f32 (1 / 5)), m')"
    unfolding animateRipple_line_def Let_def prod.case color_def[symmetric] by (simp only: m' option.map)
  with sh show ?thesis by simp
qed

lemma rings_ok:
  assumes px: "pixels m p 10000"
    and rp: "bitmap ripple = \<lparr>data = p, width = 100, height = 100\<rparr>" "radius ripple = of_int R"
    and R: "21 \<le> R" "R \<le> 47"
    and ok: "ring_ok sn cs"
  shows "\<exists>m'. animateRipple_rings sn cs ripple 50 50 m = Some m' \<and> same_shape m m'"
proof -
  let ?I = "\<lambda>(a::rat) (s::rat \<times> memory). (\<exists>L. a = of_int L \<and> 0 \<le> L \<and> L \<le> 4) \<and> same_shape m (snd s)"
  have "\<exists>s' a'. float_loop 0 4 1 (animateRipple_line sn cs ripple 50 50) (1, m) = Some s' \<and> ?I a' s'
              \<and> \<not> a' < 4"
  proof (rule float_loop_total[where I = ?I and d = 1])
    have "(0::rat) = of_int 0" by simp
    then show "?I 0 (1, m)" using same_shape_refl by fastforce
    show "(0::rat) < 1" by simp
    fix a :: rat and s :: "rat \<times> memory" assume I: "?I a s" and lt: "a < 4"
    then obtain L where L: "a = of_int L" "0 \<le> L" "L \<le> 4" and sh: "same_shape m (snd s)" by blast
    have "(of_int L :: rat) < of_int 4" using lt L(1) by simp
    then have L3: "L \<le> 3" by simp
    obtain sa t where s: "s = (sa, t)" by (cases s)
    from line_ok[OF pixels_shape[OF sh[unfolded s snd_conv] px] rp R L(2) L3 ok, of sa] obtain s' where
      s': "animateRipple_line sn cs ripple 50 50 (of_int L) (sa, t) = Some s'" "same_shape t (snd s')" by blast
    have f: "fadd (of_int L) 1 = of_int (L + 1)" using fadd_int[of L 1] L by simp
    have "?I (fadd a 1) s'" unfolding L(1) f using L(2) L3 same_shape_trans[OF sh[unfolded s snd_conv] s'(2)]
      by fastforce
    moreover have "a + 1 \<le> fadd a 1" unfolding L(1) f by simp
    ultimately show "(\<exists>s'. animateRipple_line sn cs ripple 50 50 a s = Some s' \<and> ?I (fadd a 1) s')
        \<and> a + 1 \<le> fadd a 1"
      using s' unfolding s L(1) by blast
  qed
  then obtain s' where "float_loop 0 4 1 (animateRipple_line sn cs ripple 50 50) (1, m) = Some s'"
    "same_shape m (snd s')" by blast
  then show ?thesis by (simp add: animateRipple_rings_def)
qed


lemma initRipple_empty:
  assumes "blocks m d = Some px" "length px = 518400" "d < brk m"
  shows "rippling x y (brk m) d 0 (initRipple x y (empty_pool m))"
  using assms
  by (simp add: initRipple_def empty_pool_def rippling_def Let_def calloc_def no_ripple_def fade_def
      pixels_def)


lemma centre_50: "i2f (cdiv 100 2) = 50"
  using i2f_small[of 50] by (simp add: cdiv_def)


lemma fade_Suc: "fade (Suc n) = fsub (fade n) (f32 (3 / 100))"
  by (simp add: fade_def)

lemma for_loop_5:
  "for_loop 0 5 body s =
     Option.bind (body 0 s) (\<lambda>s. Option.bind (body 1 s) (\<lambda>s. Option.bind (body 2 s)
       (\<lambda>s. Option.bind (body 3 s) (\<lambda>s. body 4 s))))"
  by (simp add: for_loop.simps split: option.splits)


lemma body_rings:
  assumes st: "rippling x y p d n st" and n: "n < 27" and ok: "ring_ok sn cs"
    and sx: "animateRipple_screen x (tileX camera) (cdiv DISPLAY_TW 2) 50 (pixelX camera) = Some sx"
    and sy: "animateRipple_screen y (tileY camera) (cdiv DISPLAY_TH 2) 50 (pixelY camera) = Some sy"
  defines "r' \<equiv> \<lparr>bitmap = \<lparr>data = p, width = 100, height = 100\<rparr>,
          radius = 21 + of_nat n, alpha = fade (Suc n), Ripple.tileX = x, Ripple.tileY = y, active = 1\<rparr>"
  shows "\<exists>m'. animateRipple_body sn cs camera disp 960 0 st
             = Option.bind (animateRipple_blit r' disp 960 sx sy m') (\<lambda>m. animateRipple_end 0 r' m st)
           \<and> same_shape (heap st) m'"
proof -
  define BM where "BM = \<lparr>data = p, width = 100, height = 100\<rparr>"
  define r where "r = \<lparr>bitmap = BM, radius = 20 + of_nat n, alpha = fade n,
     Ripple.tileX = x, Ripple.tileY = y, active = 1\<rparr>"
  from st have arr: "rippleArray st = (replicate 5 no_ripple)[0 := r]"
    and px: "pixels (heap st) p 10000"
    by (simp_all add: rippling_def r_def BM_def)
  have r0: "rippleArray st ! nat 0 = r" by (simp add: arr)
  have act: "(active r = 0) = False" by (simp add: r_def)
  have bm: "bitmap r = BM" by (simp add: r_def)
  have wh: "width BM = 100" "height BM = 100" by (simp_all add: BM_def)
  have tx: "Ripple.tileX r = x" "Ripple.tileY r = y" by (simp_all add: r_def)
  have "\<bar>21 + int n\<bar> \<le> 2 ^ 24" using n by simp
  from f32_of_int[OF this] have rad: "fadd (20 + of_nat n) 1 = 21 + of_nat n" by (simp add: fadd_def)
  have eq: "(r\<lparr>radius := fadd (radius r) 1\<rparr>)\<lparr>alpha := fsub (alpha (r\<lparr>radius := fadd (radius r) 1\<rparr>)) (f32 (3 / 100))\<rparr> = r'"
    by (simp add: r_def r'_def rad fade_Suc BM_def)
  have rb: "bitmap r' = \<lparr>data = p, width = 100, height = 100\<rparr>" by (simp add: r'_def)
  have rr: "radius r' = of_int (21 + int n)" by (simp add: r'_def)
  have R: "21 \<le> 21 + int n" "21 + int n \<le> 47" using n by simp_all
  from fillBitmap_ok[OF px, of 0] obtain m1 where
    m1: "fillBitmap BM 0 (heap st) = Some m1" and s1: "same_shape (heap st) m1" by (auto simp: BM_def)
  from rings_ok[OF pixels_shape[OF s1 px] rb rr R ok] obtain m2 where
    m2: "animateRipple_rings sn cs r' 50 50 m1 = Some m2" and s2: "same_shape m1 m2" by blast
  have "animateRipple_body sn cs camera disp 960 0 st
      = Option.bind (animateRipple_blit r' disp 960 sx sy m2) (\<lambda>m. animateRipple_end 0 r' m st)"
    unfolding animateRipple_body_def Let_def r0
    by (simp only: act if_False bm wh centre_50 tx sx sy eq m1 m2 bind.simps)
  with same_shape_trans[OF s1 s2] show ?thesis by blast
qed


lemma blit_off:
  assumes dp: "pixels m (buffer disp) 518400"
    and rp: "bitmap ripple = \<lparr>data = p, width = 100, height = 100\<rparr>"
    and o: "0 \<le> sx" "0 \<le> sy" "518400 \<le> (sy * 960) + sx" "(sy * 960) + sx < 2 ^ 31"
  shows "animateRipple_blit ripple disp 960 sx sy m = None"
proof -
  have c1: "c_int (sy * 960) = Some (sy * 960)" using o by (intro c_int_ok) simp_all
  have c2: "c_int ((sy * 960) + sx) = Some ((sy * 960) + sx)" using o by (intro c_int_ok) simp_all
  from dp obtain xs where xs: "blocks m (buffer disp) = Some xs" "length xs = 518400"
    by (auto simp: pixels_def)
  have ld: "load m (buffer disp) ((((sy * 960) + sx) + (0 * 960)) + 0) = None"
    using xs o by (simp add: load_def)
  have p: "animateRipple_pixel ripple (buffer disp) 960 ((sy * 960) + sx) 0 0 m = None"
    unfolding animateRipple_pixel_def by (simp only: ld bind.simps)
  have row: "for_loop 0 100 (animateRipple_pixel ripple (buffer disp) 960 ((sy * 960) + sx) 0) m = None"
    by (subst for_loop.simps) (simp add: p)
  have "for_loop 0 100 (\<lambda>y. for_loop 0 100
          (animateRipple_pixel ripple (buffer disp) 960 ((sy * 960) + sx) y)) m = None"
    by (subst for_loop.simps) (simp add: row)
  then show ?thesis unfolding animateRipple_blit_def rp by (simp add: c1 c2)
qed







text \<open>
  The condition \<open>ring_ok\<close> on the C library's \<^verbatim>\<open>sin\<close> and \<^verbatim>\<open>cos\<close> holds for every pair of
  functions with values in the unit disc whose sine stays \<open>2 ^ -22\<close> below 1 at the
  angles that the drawing loop visits. The bound below 1 is needed: in the last frame the
  outer ring has radius 50, and where \<^verbatim>\<open>sin(angle)\<close> is 1 its pixel \<open>(50, 100)\<close> is beyond the
  end of the bitmap and the \<^verbatim>\<open>assert\<close> fails.
\<close>

lemma ring_ok_circle:
  assumes c: "\<And>a. (sn a)\<^sup>2 + (cs a)\<^sup>2 \<le> 1"
    and s: "\<And>k. ring_angle k < dmul 2 M_PI \<Longrightarrow> sn (ring_angle k) \<le> 1 - 1 / 2 ^ 22"
  shows "ring_ok sn cs"
  unfolding ring_ok_def
proof (intro allI impI conjI)
  fix k assume lt: "ring_angle k < dmul 2 M_PI"
  define a where "a = ring_angle k"
  have s2: "(sn a)\<^sup>2 \<le> 1" using c[of a] zero_le_power2[of "cs a"] by linarith
  have c2: "(cs a)\<^sup>2 \<le> 1" using c[of a] zero_le_power2[of "sn a"] by linarith
  show "\<bar>sn (ring_angle k)\<bar> \<le> 1" using s2 abs_le_square_iff[of "sn a" 1] by (simp add: a_def)
  show "\<bar>cs (ring_angle k)\<bar> \<le> 1" using c2 abs_le_square_iff[of "cs a" 1] by (simp add: a_def)
  show "sn (ring_angle k) \<le> 1 - 1 / 2 ^ 22" using s[OF lt] .
  show "sn (ring_angle k) \<le> 24 / 25 \<or> cs (ring_angle k) \<le> 24 / 25"
  proof (rule ccontr)
    assume "\<not> (sn (ring_angle k) \<le> 24 / 25 \<or> cs (ring_angle k) \<le> 24 / 25)"
    then have g: "24 / 25 < sn a" "24 / 25 < cs a" by (simp_all add: a_def)
    have "(24 / 25)\<^sup>2 < (sn a)\<^sup>2" using g(1) by (intro power_strict_mono) simp_all
    moreover have "(24 / 25)\<^sup>2 < (cs a)\<^sup>2" using g(2) by (intro power_strict_mono) simp_all
    ultimately have "2 * (24 / 25 :: rat)\<^sup>2 < (sn a)\<^sup>2 + (cs a)\<^sup>2" by linarith
    with c[of a] show False by (simp add: power2_eq_square)
  qed
qed

lemma f64_small: "f64 50 = 50" "f64 100 = 100"
  by code_simp+

lemma f32_small: "f32 100 = 100" "f32 50 = 50"
  using f32_of_int[of 100] f32_of_int[of 50] by simp_all

lemma animateRipple_plot_outside:
  "animateRipple_plot \<lparr>data = p, width = 100, height = 100\<rparr>
     (f32 (dadd 50 (dmul 50 0))) (f32 (dadd 50 (dmul 50 1))) color m = None"
  by (simp add: animateRipple_plot_def dadd_def dmul_def f64_small f32_small f64_0 f2i_def c_int_def)

text \<open>
  The constants 0 and 1, the values of \<^verbatim>\<open>sin\<close> and \<^verbatim>\<open>cos\<close> at the angle 0, stand for the
  two library functions in the concrete runs below; the life of a ripple does not depend
  on where its ring pixels are drawn.
\<close>

lemma ring_ok_0: "ring_ok sin_0 cos_0"
  by (simp add: ring_ok_def sin_0_def cos_0_def)



lemma screen_10:
  "animateRipple_screen 10 0 (cdiv DISPLAY_TW 2) 50 0 = Some 934"
  "animateRipple_screen 10 0 (cdiv DISPLAY_TH 2) 50 0 = Some 694"
proof -
  have i: "i2f 960 = 960" "i2f 720 = 720" "i2f 934 = 934" "i2f 694 = 694"
    using i2f_small[of 960] i2f_small[of 720] i2f_small[of 934] i2f_small[of 694] by simp_all
  have f: "fsub 960 50 = 910" "fsub 720 50 = 670" "fsub 934 0 = 934" "fsub 694 0 = 694"
    using fsub_int[of 960 50] fsub_int[of 720 50] fsub_int[of 934 0] fsub_int[of 694 0] by simp_all
  show "animateRipple_screen 10 0 (cdiv DISPLAY_TW 2) 50 0 = Some 934"
    by (simp add: animateRipple_screen_def c_int_def DISPLAY_TW_def DISPLAY_PW_def TILESIZE_def cdiv_def
        i f f2i_def)
  show "animateRipple_screen 10 0 (cdiv DISPLAY_TH 2) 50 0 = Some 694"
    by (simp add: animateRipple_screen_def c_int_def DISPLAY_TH_def DISPLAY_PH_def TILESIZE_def cdiv_def
        i f f2i_def)
qed

text \<open>
  A ripple whose bitmap does not lie within the display buffer: for the ripple of
  \<^verbatim>\<open>initRipple(10, 10)\<close> with the camera at rest at tile \<open>(0, 0)\<close> the first pixel of the
  composition is at index \<open>694 * 960 + 934\<close>, beyond the 518400 pixels of the buffer,
  and the first call of \<^verbatim>\<open>animateRipple\<close> fails.
\<close>

lemma animateRipple_off_display:
  "animateRipple sin_0 cos_0 start_camera start_display DISPLAY_PW
     (initRipple 10 10 (empty_pool start_memory)) = None"
proof -
  have h2: "blocks start_memory (buffer start_display) = Some (replicate 518400 0)"
    by (simp add: start_memory_def start_display_def)
  have h4: "buffer start_display < brk start_memory"
    by (simp add: start_memory_def start_display_def)
  note init = initRipple_empty[OF h2 _ h4, of 10 10, simplified]
  have n: "(0::nat) < 27" by simp
  have sx: "animateRipple_screen 10 (tileX start_camera) (cdiv DISPLAY_TW 2) 50 (pixelX start_camera) = Some 934"
    and sy: "animateRipple_screen 10 (tileY start_camera) (cdiv DISPLAY_TH 2) 50 (pixelY start_camera) = Some 694"
    by (simp_all add: start_camera_def screen_10)
  from body_rings[OF init n ring_ok_0 sx sy, of start_display] obtain m2 where
    e: "animateRipple_body sin_0 cos_0 start_camera start_display 960 0 (initRipple 10 10 (empty_pool start_memory))
         = Option.bind (animateRipple_blit \<lparr>bitmap = \<lparr>data = brk start_memory, width = 100, height = 100\<rparr>,
               radius = 21 + of_nat 0, alpha = fade (Suc 0), Ripple.tileX = 10, Ripple.tileY = 10, active = 1\<rparr>
               start_display 960 934 694 m2)
             (\<lambda>m. animateRipple_end 0 \<lparr>bitmap = \<lparr>data = brk start_memory, width = 100, height = 100\<rparr>,
               radius = 21 + of_nat 0, alpha = fade (Suc 0), Ripple.tileX = 10, Ripple.tileY = 10, active = 1\<rparr> m
               (initRipple 10 10 (empty_pool start_memory)))"
    and s2: "same_shape (heap (initRipple 10 10 (empty_pool start_memory))) m2" by blast
  from init have "pixels (heap (initRipple 10 10 (empty_pool start_memory))) (buffer start_display) 518400"
    by (simp add: rippling_def)
  note dp = pixels_shape[OF s2 this]
  have "animateRipple_blit \<lparr>bitmap = \<lparr>data = brk start_memory, width = 100, height = 100\<rparr>,
               radius = 21 + of_nat 0, alpha = fade (Suc 0), Ripple.tileX = 10, Ripple.tileY = 10, active = 1\<rparr>
               start_display 960 934 694 m2 = None"
    by (rule blit_off[OF dp]) simp_all
  with e have "animateRipple_body sin_0 cos_0 start_camera start_display 960 0
      (initRipple 10 10 (empty_pool start_memory)) = None" by simp
  then show ?thesis by (simp add: animateRipple_def for_loop_5 DISPLAY_PW_def)
qed






lemma replicate_5: "replicate 5 r = [r, r, r, r, r]"
  by (simp add: numeral_eq_Suc)

text \<open>
  Claim C7 fails on the code. After six calls of \<^verbatim>\<open>initRipple\<close> on the empty pool all five
  slots are active, the write cursor has wrapped (it is 1) and slot 0 holds the sixth
  ripple; but the block \<open>brk m\<close> that the first call allocated for slot 0 is still
  allocated and no slot points to it any more: it was not released, and cannot be.
\<close>

theorem initRipple_six_spawns:
  "(let b = brk m;
        st = initRipple x6 y6 (initRipple x5 y5 (initRipple x4 y4 (initRipple x3 y3
               (initRipple x2 y2 (initRipple x1 y1 (empty_pool m))))))
    in rippleIndex st = 1 \<and> map active (rippleArray st) = [1, 1, 1, 1, 1]
       \<and> Ripple.tileX (rippleArray st ! 0) = x6 \<and> Ripple.tileY (rippleArray st ! 0) = y6
       \<and> map (\<lambda>r. data (bitmap r)) (rippleArray st) = [b + 5, b + 1, b + 2, b + 3, b + 4]
       \<and> blocks (heap st) b = Some (replicate 10000 0))"
  by (simp add: initRipple_def empty_pool_def Let_def calloc_def replicate_5)

end
